theory Spec2Isabelle
  imports Main "HOL-Library.Sublist"
begin

section \<open>JavaScript values\<close>

text \<open>
  The values that travel through the library: payloads of events, arguments of state
  handlers, thrown values. An \<open>Error\<close> object carries its message and its stack; an
  object with a \<open>start\<close> function (an Action or a machine) is a reference.
\<close>

datatype jsval =
    JUndefined
  | JNull
  | JBool bool
  | JNum int
  | JStr string
  | JError string string
  | JAction nat

text \<open>Truthiness, as \<open>if (v)\<close>, \<open>!v\<close> and \<open>a || b\<close> read a value.\<close>

fun truthy :: "jsval \<Rightarrow> bool" where
  "truthy JUndefined = False"
| "truthy JNull = False"
| "truthy (JBool b) = b"
| "truthy (JNum n) = (n \<noteq> 0)"
| "truthy (JStr s) = (s \<noteq> [])"
| "truthy (JError m s) = True"
| "truthy (JAction a) = True"

text \<open>\<open>v == undefined\<close> (loose equality): true of \<open>undefined\<close> and \<open>null\<close> only.\<close>

fun nullish :: "jsval \<Rightarrow> bool" where
  "nullish JUndefined = True"
| "nullish JNull = True"
| "nullish v = False"

text \<open>\<open>v && v.start instanceof Function\<close>\<close>

fun startable :: "jsval \<Rightarrow> bool" where
  "startable (JAction a) = True"
| "startable v = False"

text \<open>\<open>v.stack\<close> when it is there and truthy (read on a value that is not nullish).\<close>

fun stack_of :: "jsval \<Rightarrow> string option" where
  "stack_of (JError m s) = (if s = [] then None else Some s)"
| "stack_of v = None"

fun show_nat :: "nat \<Rightarrow> string" where
  "show_nat n =
     (if n < 10 then [''0123456789'' ! n]
      else show_nat (n div 10) @ [''0123456789'' ! (n mod 10)])"

declare show_nat.simps [simp del]

text \<open>String conversion, as \<open>"..." + v\<close> performs it.\<close>

fun to_string :: "jsval \<Rightarrow> string" where
  "to_string JUndefined = ''undefined''"
| "to_string JNull = ''null''"
| "to_string (JBool b) = (if b then ''true'' else ''false'')"
| "to_string (JNum n) = (if n < 0 then ''-'' @ show_nat (nat (- n)) else show_nat (nat n))"
| "to_string (JStr s) = s"
| "to_string (JError m s) = ''Error: '' @ m"
| "to_string (JAction a) = ''[object Object]''"


section \<open>The sequencer (NobleMachine)\<close>

text \<open>
  The sources hold two revisions of the sequencer: the prototype-based one of
  \<^verbatim>\<open>noblemachine.js\<close> and the later closure-based one, which adds the \<open>wait\<close>
  marker, passes every argument of \<open>toState\<close> on, and guards the default success
  emission by \<open>me.running\<close>. The functions below take the revision where the two differ.
\<close>

datatype revision = Prototype_rev | Closure_rev

datatype nameOrIndex = Name string | Index int | NoState

text \<open>The options object of \<open>transition\<close>; an absent key is \<open>None\<close>.\<close>

record topts =
  opt_action :: jsval
  opt_success :: "string option"
  opt_error :: "string option"
  opt_argdata :: "jsval list option"

text \<open>
  User code. A user function is known by a name, the \<open>wait\<close> property \<open>next.wait\<close> sets
  on it, and what it does to the machine when called with given arguments: a sequence
  of calls of the machine's methods, possibly ended by a \<open>throw\<close>.
\<close>

datatype stmt =
    CallToNext "jsval list"
  | CallToPrev "jsval list"
  | CallToRepeat "jsval list"
  | CallToComplete "jsval list"
  | CallToError "jsval list"
  | CallToState nameOrIndex "jsval list"
  | CallEmitSuccess "jsval list"
  | CallEmitError "jsval list"
  | CallTransition topts
  | Throw jsval

datatype func = Func (fname: string) (wait: bool) (body: "jsval list \<Rightarrow> stmt list")

text \<open>
  What \<open>makeHandler\<close> closes over: nothing, a function, or any other value. The two
  functions the constructor registers for \<open>complete\<close> and \<open>error\<close> read the machine's
  fields, so they are constructors of their own.
\<close>

datatype funcOrAct = Undefined | Function func | CompleteFn | ErrorFn | Other jsval

text \<open>A transition whose listeners are attached and whose action was started.\<close>

record wiring =
  w_action :: jsval
  w_success :: string
  w_error :: string
  w_argdata :: "jsval list"

text \<open>
  A listener the user attached to an event of the machine (\<open>machine.addListener\<close>,
  inherited from the event emitter): known by a name and by what a call of it ends in
  for given arguments, a return (\<open>None\<close>) or a thrown value.
\<close>

datatype hearer = Hearer (hname: string) (hthrows: "jsval list \<Rightarrow> jsval option")

record machine =
  handlers :: "string \<rightharpoonup> funcOrAct"
  stateSequence :: "string list"
  stateIndex :: int
  state :: "string option"
  running :: bool
  transitioning :: bool
  completeHandler :: "func option"
  errorHandler :: "func option"
  exitHandler :: "func option"
  hearers :: "string \<Rightarrow> hearer list"
  emitted :: "(string \<times> jsval list) list"
  heard :: "(string \<times> jsval list) list"
  calls :: "(string \<times> jsval list) list"
  wired :: "wiring list"
  logged :: "string list"

text \<open>
  \<open>hearers\<close> holds the listeners of each event of the machine in the order they were
  added. \<open>emitted\<close> lists the events passed to \<open>emit\<close>, \<open>heard\<close> the listeners called with
  their arguments, \<open>calls\<close> the user functions the machine invoked with their
  arguments, \<open>logged\<close> the lines sent to \<open>NobleMachine.logger.error\<close>.
  A call either returns or throws; the machine keeps what was done before the throw.
  \<open>None\<close> is a run that needs more nested calls than the fuel allows.
\<close>

datatype outcome = Returned machine | Threw jsval machine

type_synonym result = "outcome option"

type_synonym runner = "nameOrIndex \<Rightarrow> jsval list option \<Rightarrow> machine \<Rightarrow> result"

definition and_then :: "result \<Rightarrow> (machine \<Rightarrow> result) \<Rightarrow> result" where
  "and_then r k =
     (case r of
        None \<Rightarrow> None
      | Some (Threw e m) \<Rightarrow> Some (Threw e m)
      | Some (Returned m) \<Rightarrow> k m)"

definition type_error :: "string \<Rightarrow> jsval" where
  "type_error what = JError (''TypeError: '' @ what) (''TypeError: '' @ what)"

definition reference_error :: "string \<Rightarrow> jsval" where
  "reference_error what = JError (''ReferenceError: '' @ what) (''ReferenceError: '' @ what)"

text \<open>
  The machine inherits \<open>emit\<close> and \<open>addListener\<close> from the event emitter of Node
  (\<open>sys.inherits(NobleMachine, events.EventEmitter)\<close>), whose code is not among the
  sources. What the machine uses of it is modelled here after Node's documentation:
  \<open>addListener\<close> appends a listener to those of the event; \<open>emit\<close> calls the
  listeners of the event in the order they were added, with the arguments of the
  event, and what a listener throws leaves \<open>emit\<close>; an \<open>error\<close> event with no listener
  is thrown instead: its first argument when that is an \<open>Error\<close>, a new \<open>Error\<close>
  otherwise.
\<close>

definition nm_addListener :: "string \<Rightarrow> hearer \<Rightarrow> machine \<Rightarrow> machine" where
  "nm_addListener ev l m = m\<lparr>hearers := (hearers m)(ev := hearers m ev @ [l])\<rparr>"

definition uncaught :: "jsval list \<Rightarrow> jsval" where
  "uncaught args =
     (case args of
        JError msg st # rest \<Rightarrow> JError msg st
      | _ \<Rightarrow> JError ''Uncaught, unspecified 'error' event.''
               ''Error: Uncaught, unspecified 'error' event. at EventEmitter.emit'')"

primrec tell :: "hearer list \<Rightarrow> jsval list \<Rightarrow> machine \<Rightarrow> result" where
  "tell [] args m = Some (Returned m)"
| "tell (l # ls) args m =
     (let m1 = m\<lparr>heard := heard m @ [(hname l, args)]\<rparr>
      in case hthrows l args of
           Some e \<Rightarrow> Some (Threw e m1)
         | None \<Rightarrow> tell ls args m1)"

definition emit :: "string \<Rightarrow> jsval list \<Rightarrow> machine \<Rightarrow> result" where
  "emit ev args m =
     (let m1 = m\<lparr>emitted := emitted m @ [(ev, args)]\<rparr>
      in if ev = ''error'' \<and> hearers m ev = [] then Some (Threw (uncaught args) m1)
         else tell (hearers m ev) args m1)"

definition emitSuccess :: "jsval list \<Rightarrow> machine \<Rightarrow> result" where
  "emitSuccess args m = emit ''success'' args (m\<lparr>running := False\<rparr>)"

definition emitError :: "jsval list \<Rightarrow> machine \<Rightarrow> result" where
  "emitError args m = emit ''error'' args (m\<lparr>running := False\<rparr>)"

definition findState :: "machine \<Rightarrow> nameOrIndex \<Rightarrow> string option" where
  "findState m nameOrIndex =
     (case nameOrIndex of
        Name s \<Rightarrow> Some s
      | Index i \<Rightarrow>
          (if 0 \<le> i \<and> i < int (length (stateSequence m))
           then Some (stateSequence m ! nat i) else None)
      | NoState \<Rightarrow> None)"

fun indexOf :: "string list \<Rightarrow> string \<Rightarrow> int" where
  "indexOf [] x = - 1"
| "indexOf (y # ys) x =
     (if y = x then 0 else (let i = indexOf ys x in if i = - 1 then - 1 else i + 1))"

definition as_target :: "string option \<Rightarrow> nameOrIndex" where
  "as_target st = (case st of None \<Rightarrow> NoState | Some s \<Rightarrow> Name s)"

text \<open>\<open>opts.error || 'error'\<close>: the default replaces an absent or empty name.\<close>

definition or_default :: "string option \<Rightarrow> string \<Rightarrow> string" where
  "or_default v d = (case v of None \<Rightarrow> d | Some s \<Rightarrow> if s = [] then d else s)"

definition transition :: "topts \<Rightarrow> machine \<Rightarrow> result" where
  "transition opts m =
     (let err = or_default (opt_error opts) ''error'';
          suc = or_default (opt_success opts) ''complete''
      in if nullish (opt_action opts)
         then Some (Threw (JStr ''Transition added with no action'') m)
         else if \<not> startable (opt_action opts)
         then Some (Threw (type_error ''act.addListener is not a function'') m)
         else Some (Returned (m\<lparr>
                wired := wired m @
                  [\<lparr>w_action = opt_action opts, w_success = suc, w_error = err,
                    w_argdata = (case opt_argdata opts of None \<Rightarrow> [] | Some d \<Rightarrow> d)\<rparr>],
                transitioning := True\<rparr>)))"



definition toState :: "revision \<Rightarrow> runner \<Rightarrow> nameOrIndex \<Rightarrow> jsval list \<Rightarrow> machine \<Rightarrow> result" where
  "toState v rs nameOrIndex args m =
     (let st = findState m nameOrIndex in
      case v of
        Closure_rev \<Rightarrow>
          (if args = [] then rs (as_target st) None m
           else if startable (hd args)
           then transition \<lparr>opt_action = hd args, opt_success = st, opt_error = None,
                            opt_argdata = Some (tl args)\<rparr> m
           else rs (as_target st) (Some args) m)
      | Prototype_rev \<Rightarrow>
          (let actOrVar = (if args = [] then JUndefined else hd args) in
           if actOrVar = JUndefined then rs (as_target st) None m
           else if startable actOrVar
           then transition \<lparr>opt_action = actOrVar, opt_success = st, opt_error = None,
                            opt_argdata = None\<rparr> m
           else rs (as_target st) (Some [actOrVar]) m))"

definition toComplete :: "revision \<Rightarrow> runner \<Rightarrow> jsval list \<Rightarrow> machine \<Rightarrow> result" where
  "toComplete v rs args m = toState v rs (Name ''complete'') args m"

definition toError :: "revision \<Rightarrow> runner \<Rightarrow> jsval list \<Rightarrow> machine \<Rightarrow> result" where
  "toError v rs args m = toState v rs (Name ''error'') args m"

definition toNext :: "revision \<Rightarrow> runner \<Rightarrow> jsval list \<Rightarrow> machine \<Rightarrow> result" where
  "toNext v rs args m =
     (let nextState = stateIndex m + 1 in
      if nextState < int (length (stateSequence m))
      then toState v rs (Index nextState) args m
      else toComplete v rs args m)"

definition toPrev :: "revision \<Rightarrow> runner \<Rightarrow> jsval list \<Rightarrow> machine \<Rightarrow> result" where
  "toPrev v rs args m =
     (let nextState = stateIndex m - 1 in
      if nextState < 0
      then toError v rs [JStr ''Tried to transition earlier than the first state?!''] m
      else toState v rs (Index nextState) args m)"

text \<open>
  \<open>toRepeat\<close> of the prototype revision reads a variable \<open>me\<close> that its scope does not
  declare, which throws.
\<close>

definition toRepeat :: "revision \<Rightarrow> runner \<Rightarrow> jsval list \<Rightarrow> machine \<Rightarrow> result" where
  "toRepeat v rs args m =
     (case v of
        Closure_rev \<Rightarrow> toState v rs (Index (stateIndex m)) args m
      | Prototype_rev \<Rightarrow> Some (Threw (reference_error ''me is not defined'') m))"

definition exec_stmt :: "revision \<Rightarrow> runner \<Rightarrow> stmt \<Rightarrow> machine \<Rightarrow> result" where
  "exec_stmt v rs s m =
     (case s of
        CallToNext args \<Rightarrow> toNext v rs args m
      | CallToPrev args \<Rightarrow> toPrev v rs args m
      | CallToRepeat args \<Rightarrow> toRepeat v rs args m
      | CallToComplete args \<Rightarrow> toComplete v rs args m
      | CallToError args \<Rightarrow> toError v rs args m
      | CallToState t args \<Rightarrow> toState v rs t args m
      | CallEmitSuccess args \<Rightarrow> emitSuccess args m
      | CallEmitError args \<Rightarrow> emitError args m
      | CallTransition opts \<Rightarrow> transition opts m
      | Throw e \<Rightarrow> Some (Threw e m))"

primrec exec :: "revision \<Rightarrow> runner \<Rightarrow> stmt list \<Rightarrow> machine \<Rightarrow> result" where
  "exec v rs [] m = Some (Returned m)"
| "exec v rs (s # ss) m = and_then (exec_stmt v rs s m) (exec v rs ss)"

definition call_func :: "revision \<Rightarrow> runner \<Rightarrow> func \<Rightarrow> jsval list \<Rightarrow> machine \<Rightarrow> result" where
  "call_func v rs f args m =
     exec v rs (body f args) (m\<lparr>calls := calls m @ [(fname f, args)]\<rparr>)"

definition onExit :: "revision \<Rightarrow> runner \<Rightarrow> machine \<Rightarrow> result" where
  "onExit v rs m =
     (case exitHandler m of
        None \<Rightarrow> Some (Returned m)
      | Some f \<Rightarrow> call_func v rs f [] m)"

text \<open>The function registered for \<open>complete\<close> by the constructor.\<close>

definition complete_fn :: "revision \<Rightarrow> runner \<Rightarrow> jsval list \<Rightarrow> machine \<Rightarrow> result" where
  "complete_fn v rs args m =
     and_then
       (case completeHandler m of
          None \<Rightarrow> Some (Returned m)
        | Some h \<Rightarrow> call_func v rs h args m)
       (\<lambda>m1. and_then (onExit v rs m1)
          (\<lambda>m2. if (v = Closure_rev \<longrightarrow> running m2) \<and> Option.is_none (completeHandler m2)
                then emitSuccess args m2
                else Some (Returned m2)))"

text \<open>The function registered for \<open>error\<close> by the constructor.\<close>

definition error_fn :: "revision \<Rightarrow> runner \<Rightarrow> jsval list \<Rightarrow> machine \<Rightarrow> result" where
  "error_fn v rs args m =
     and_then
       (case errorHandler m of
          None \<Rightarrow> Some (Returned m)
        | Some h \<Rightarrow> call_func v rs h args m)
       (\<lambda>m1. and_then (onExit v rs m1)
          (\<lambda>m2. if Option.is_none (errorHandler m2)
                then emitError args m2
                else Some (Returned m2)))"

text \<open>
  The check \<open>makeHandler\<close> makes after a function returned: the state is the one at
  entry, no transition is pending, the machine is running, and (closure revision only)
  the function has no \<open>wait\<close> marker.
\<close>

definition advances :: "revision \<Rightarrow> bool \<Rightarrow> string option \<Rightarrow> machine \<Rightarrow> bool" where
  "advances v waits st m =
     ((v = Closure_rev \<longrightarrow> \<not> waits) \<and> state m = st \<and> \<not> transitioning m \<and> running m)"

definition after_function :: "revision \<Rightarrow> runner \<Rightarrow> bool \<Rightarrow> string option \<Rightarrow> machine \<Rightarrow> result" where
  "after_function v rs waits st m =
     (if advances v waits st m then toNext v rs [] m else Some (Returned m))"

definition makeHandler :: "revision \<Rightarrow> runner \<Rightarrow> funcOrAct \<Rightarrow> jsval list \<Rightarrow> machine \<Rightarrow> result" where
  "makeHandler v rs funcOrAct args m =
     (let st = state m in
      case funcOrAct of
        Undefined \<Rightarrow> toNext v rs [] m
      | Function f \<Rightarrow>
          and_then (call_func v rs f args m) (after_function v rs (wait f) st)
      | CompleteFn \<Rightarrow>
          and_then (complete_fn v rs args m) (after_function v rs False st)
      | ErrorFn \<Rightarrow>
          and_then (error_fn v rs args m) (after_function v rs False st)
      | Other x \<Rightarrow> toNext v rs [x] m)"

text \<open>\<open>me.handlers[me.state]\<close>: an undefined state reads the key \<open>undefined\<close>.\<close>

definition state_key :: "string option \<Rightarrow> string" where
  "state_key st = (case st of None \<Rightarrow> ''undefined'' | Some s \<Rightarrow> s)"

definition invoke :: "revision \<Rightarrow> runner \<Rightarrow> jsval list \<Rightarrow> machine \<Rightarrow> result" where
  "invoke v rs args m =
     (case handlers m (state_key (state m)) of
        None \<Rightarrow> Some (Threw (type_error ''handler is undefined'') m)
      | Some h \<Rightarrow> makeHandler v rs h args m)"

text \<open>
  The \<open>catch\<close> block of \<open>go\<close>. Reading \<open>e.stack\<close> of \<open>undefined\<close> or \<open>null\<close> throws
  in its turn.
\<close>

definition go_catch :: "revision \<Rightarrow> runner \<Rightarrow> jsval \<Rightarrow> machine \<Rightarrow> result" where
  "go_catch v rs e m =
     (if nullish e then Some (Threw (type_error ''cannot read property stack'') m)
      else
        (let m1 = (case stack_of e of
                     None \<Rightarrow> m
                   | Some s \<Rightarrow> m\<lparr>logged := logged m @ [s]\<rparr>)
         in if state m1 = Some ''error''
            then emitError [e] m1
            else toError v rs [e] m1))"

definition go :: "revision \<Rightarrow> runner \<Rightarrow> jsval list \<Rightarrow> machine \<Rightarrow> result" where
  "go v rs args m =
     (case invoke v rs args m of
        Some (Threw e m') \<Rightarrow> go_catch v rs e m'
      | r \<Rightarrow> r)"

definition enter :: "machine \<Rightarrow> nameOrIndex \<Rightarrow> machine" where
  "enter m nameOrIndex =
     (let m1 = m\<lparr>state := findState m nameOrIndex\<rparr>;
          index = (case state m1 of None \<Rightarrow> - 1 | Some s \<Rightarrow> indexOf (stateSequence m1) s)
      in if index \<noteq> - 1 then m1\<lparr>stateIndex := index\<rparr> else m1)"

text \<open>
  \<open>runState\<close>: every re-entry into the machine passes here, so this is where the
  nesting of calls is counted.
\<close>

primrec runState :: "nat \<Rightarrow> revision \<Rightarrow> runner" where
  "runState 0 v = (\<lambda>nameOrIndex args m. None)"
| "runState (Suc n) v =
     (\<lambda>nameOrIndex args m.
        go v (runState n v) (case args of None \<Rightarrow> [] | Some a \<Rightarrow> a) (enter m nameOrIndex))"

text \<open>Declaring a machine.\<close>

definition nm_addState :: "string \<Rightarrow> funcOrAct \<Rightarrow> machine \<Rightarrow> machine" where
  "nm_addState name funcOrAct m = m\<lparr>handlers := (handlers m)(name \<mapsto> funcOrAct)\<rparr>"

definition nm_nextState :: "string \<Rightarrow> funcOrAct \<Rightarrow> machine \<Rightarrow> machine" where
  "nm_nextState name funcOrAct m =
     (let m1 = nm_addState name funcOrAct m
      in m1\<lparr>stateSequence := stateSequence m1 @ [name]\<rparr>)"

definition nm_next :: "funcOrAct \<Rightarrow> machine \<Rightarrow> machine" where
  "nm_next funcOrAct m =
     nm_nextState (''state'' @ show_nat (length (stateSequence m))) funcOrAct m"

definition nm_complete :: "func \<Rightarrow> machine \<Rightarrow> machine" where
  "nm_complete handler m = m\<lparr>completeHandler := Some handler\<rparr>"

definition nm_error :: "func \<Rightarrow> machine \<Rightarrow> machine" where
  "nm_error handler m = m\<lparr>errorHandler := Some handler\<rparr>"

definition nm_ensure :: "func \<Rightarrow> machine \<Rightarrow> machine" where
  "nm_ensure handler m = m\<lparr>exitHandler := Some handler\<rparr>"

definition NobleMachine :: "funcOrAct \<Rightarrow> machine" where
  "NobleMachine funcOrAct =
     (let m = nm_addState ''error'' ErrorFn (nm_addState ''complete'' CompleteFn
                \<lparr>handlers = Map.empty, stateSequence = [], stateIndex = - 1, state = None,
                 running = False, transitioning = False, completeHandler = None,
                 errorHandler = None, exitHandler = None, hearers = (\<lambda>ev. []),
                 emitted = [], heard = [], calls = [], wired = [], logged = []\<rparr>)
      in case funcOrAct of Undefined \<Rightarrow> m | _ \<Rightarrow> nm_next funcOrAct m)"

text \<open>\<open>start\<close> marks the machine running; its deferred part runs on the next tick.\<close>

definition nm_start :: "machine \<Rightarrow> machine" where
  "nm_start m = m\<lparr>running := True\<rparr>"

definition start_tick :: "nat \<Rightarrow> revision \<Rightarrow> machine \<Rightarrow> result" where
  "start_tick n v m = toNext v (runState n v) [] m"

section \<open>Actions, state machines and transition queues\<close>

text \<open>
  Actions are objects that refer to each other (a parent lists its sub-actions, a
  listener closes over its machine, a queue over its actions), so they live in a store
  and are referred to by their address.

  Every closure the source registers as a listener is a constructor of \<open>listener\<close>,
  with the variables it closes over. Callbacks of user code (listeners added by the
  user, state handlers, the \<open>_start\<close> procedures) are known by a name only: calling one
  is recorded in the trace and returns.
\<close>

text \<open>The options of \<open>StateMachine.transition\<close> as the caller writes them.\<close>

record spec =
  t_action :: jsval
  t_success :: "jsval option"
  t_error :: "jsval option"
  t_data :: "jsval option"

text \<open>The options after the defaults are mixed in; an absent key reads \<open>undefined\<close>.\<close>

record sopts =
  o_action :: jsval
  o_success :: jsval
  o_error :: jsval
  o_data :: jsval

datatype listener =
    UnhandledGuard nat
  | BubbleError nat nat
  | TransitionListener nat string sopts
  | QueueCounter nat nat
  | MakeCancel nat
  | UserListener string

record action =
  listeners :: "string \<Rightarrow> listener list"
  subActions :: "nat list"
  sm_handlers :: "string \<rightharpoonup> string"
  sm_state :: jsval

record queue =
  q_stateMachine :: nat
  q_finalState :: jsval
  q_transitions :: "spec list"
  q_started :: bool

datatype obs =
    Emitted nat string "jsval list"
  | Handled nat string string "jsval list"
  | Heard string "jsval list"

text \<open>
  \<open>counters\<close> holds the \<open>completedItems\<close> variable of every call of
  \<open>TransitionQueue.start\<close>, \<open>active\<close> the \<open>_active\<close> variable of every action built by
  \<open>make\<close>, \<open>printed\<close> the lines written by \<open>sys.puts\<close> and \<open>sys.error\<close>, \<open>scheduled\<close> the
  actions whose \<open>_start\<close> waits for the next tick, \<open>trace\<close> the events emitted and the
  user callbacks called.
\<close>

record world =
  actions :: "nat \<Rightarrow> action"
  queues :: "nat \<Rightarrow> queue"
  counters :: "nat \<Rightarrow> nat"
  n_counters :: nat
  active :: "nat \<Rightarrow> bool"
  printed :: "string list"
  trace :: "obs list"
  scheduled :: "nat list"

datatype wres = Done world | Raised jsval world

type_synonym wresult = "wres option"

datatype request = Emit nat string "jsval list" | Cancel nat

type_synonym dispatcher = "request \<Rightarrow> world \<Rightarrow> wresult"

definition wbind :: "wresult \<Rightarrow> (world \<Rightarrow> wresult) \<Rightarrow> wresult" where
  "wbind r k =
     (case r of
        None \<Rightarrow> None
      | Some (Raised e w) \<Rightarrow> Some (Raised e w)
      | Some (Done w) \<Rightarrow> k w)"

definition puts :: "string \<Rightarrow> world \<Rightarrow> world" where
  "puts s w = w\<lparr>printed := printed w @ [s]\<rparr>"

definition observe :: "obs \<Rightarrow> world \<Rightarrow> world" where
  "observe ob w = w\<lparr>trace := trace w @ [ob]\<rparr>"

definition arg0 :: "jsval list \<Rightarrow> jsval" where
  "arg0 args = (case args of [] \<Rightarrow> JUndefined | x # xs \<Rightarrow> x)"

definition set_state :: "nat \<Rightarrow> jsval \<Rightarrow> world \<Rightarrow> world" where
  "set_state m st w = w\<lparr>actions := (actions w)(m := (actions w m)\<lparr>sm_state := st\<rparr>)\<rparr>"

text \<open>The listener the \<open>Action\<close> constructor adds for \<open>error\<close>.\<close>

definition unhandled_guard :: "nat \<Rightarrow> jsval list \<Rightarrow> world \<Rightarrow> wresult" where
  "unhandled_guard me args w =
     (if length (listeners (actions w me) ''error'') = 1
      then
        (let error = arg0 args;
             w1 = (case stack_of error of None \<Rightarrow> w | Some s \<Rightarrow> puts s w);
             err = ''Unhandled error in action: '' @ to_string error
         in Some (Raised (JStr err) (puts err w1)))
      else Some (Done w))"

definition transitionNow :: "nat \<Rightarrow> jsval list \<Rightarrow> world \<Rightarrow> wresult" where
  "transitionNow me args w =
     (let key = to_string (sm_state (actions w me)) in
      case sm_handlers (actions w me) key of
        None \<Rightarrow>
          Some (Raised (JStr (''Undefined state: '' @ key)) (puts (''Undefined state: '' @ key) w))
      | Some h \<Rightarrow> Some (Done (observe (Handled me key h args) w)))"

definition transitionTo :: "nat \<Rightarrow> jsval \<Rightarrow> jsval list \<Rightarrow> world \<Rightarrow> wresult" where
  "transitionTo me st args w = transitionNow me args (set_state me st w)"

text \<open>The listener \<open>StateMachine.transition\<close> adds for \<open>event\<close>.\<close>

definition transition_listener ::
  "nat \<Rightarrow> string \<Rightarrow> sopts \<Rightarrow> jsval list \<Rightarrow> world \<Rightarrow> wresult" where
  "transition_listener me event opts args w =
     (let target = (if event = ''success'' then o_success opts else o_error opts);
          w1 = (if truthy target then set_state me target w else w);
          args1 = (if args = [] \<or> nullish (last args) then butlast args else args);
          args2 = (if truthy (o_data opts) then args1 @ [o_data opts] else args1)
      in transitionNow me args2 w1)"

text \<open>The listener \<open>TransitionQueue.start\<close> adds to count completed transitions.\<close>

definition queue_counter :: "nat \<Rightarrow> nat \<Rightarrow> world \<Rightarrow> wresult" where
  "queue_counter q c w =
     (let w1 = w\<lparr>counters := (counters w)(c := counters w c + 1)\<rparr> in
      if counters w1 c = length (q_transitions (queues w1 q))
      then transitionTo (q_stateMachine (queues w1 q)) (q_finalState (queues w1 q)) [] w1
      else Some (Done w1))"

primrec cancel_others :: "dispatcher \<Rightarrow> nat \<Rightarrow> nat list \<Rightarrow> world \<Rightarrow> wresult" where
  "cancel_others rn subAction [] w = Some (Done w)"
| "cancel_others rn subAction (other # rest) w =
     (if other = subAction then cancel_others rn subAction rest w
      else wbind (rn (Cancel other) w) (cancel_others rn subAction rest))"

text \<open>The listener \<open>addAction\<close> adds to a bubbling sub-action.\<close>

definition bubble_error :: "dispatcher \<Rightarrow> nat \<Rightarrow> nat \<Rightarrow> jsval list \<Rightarrow> world \<Rightarrow> wresult" where
  "bubble_error rn me subAction args w =
     wbind (cancel_others rn subAction (subActions (actions w me)) w)
       (rn (Emit me ''error'' args))"

definition apply_listener :: "dispatcher \<Rightarrow> listener \<Rightarrow> jsval list \<Rightarrow> world \<Rightarrow> wresult" where
  "apply_listener rn l args w =
     (case l of
        UnhandledGuard me \<Rightarrow> unhandled_guard me args w
      | BubbleError me subAction \<Rightarrow> bubble_error rn me subAction args w
      | TransitionListener me event opts \<Rightarrow> transition_listener me event opts args w
      | QueueCounter q c \<Rightarrow> queue_counter q c w
      | MakeCancel a \<Rightarrow> Some (Done (w\<lparr>active := (active w)(a := False)\<rparr>))
      | UserListener name \<Rightarrow> Some (Done (observe (Heard name args) w)))"

primrec run_listeners :: "dispatcher \<Rightarrow> listener list \<Rightarrow> jsval list \<Rightarrow> world \<Rightarrow> wresult" where
  "run_listeners rn [] args w = Some (Done w)"
| "run_listeners rn (l # ls) args w =
     wbind (apply_listener rn l args w) (run_listeners rn ls args)"

text \<open>
  \<open>emit\<close> of the event emitter: the listeners of the event, in the order added; an
  \<open>error\<close> event that has no listener is thrown (an action has the listener of its
  constructor from the start).
\<close>

definition emit_body :: "dispatcher \<Rightarrow> nat \<Rightarrow> string \<Rightarrow> jsval list \<Rightarrow> world \<Rightarrow> wresult" where
  "emit_body rn a ev args w =
     (let w1 = observe (Emitted a ev args) w
      in if ev = ''error'' \<and> listeners (actions w a) ev = [] then Some (Raised (uncaught args) w1)
         else run_listeners rn (listeners (actions w a) ev) args w1)"

primrec cancel_each :: "dispatcher \<Rightarrow> nat list \<Rightarrow> world \<Rightarrow> wresult" where
  "cancel_each rn [] w = Some (Done w)"
| "cancel_each rn (subAction # rest) w =
     wbind (rn (Cancel subAction) w) (cancel_each rn rest)"

definition cancel_body :: "dispatcher \<Rightarrow> nat \<Rightarrow> world \<Rightarrow> wresult" where
  "cancel_body rn a w =
     wbind (cancel_each rn (subActions (actions w a)) w) (emit_body rn a ''cancel'' [])"

text \<open>
  Emitting and cancelling call each other through the listeners; the first argument
  bounds how deep these calls nest.
\<close>

primrec run :: "nat \<Rightarrow> dispatcher" where
  "run 0 = (\<lambda>req w. None)"
| "run (Suc n) =
     (\<lambda>req w. case req of
        Emit a ev args \<Rightarrow> emit_body (run n) a ev args w
      | Cancel a \<Rightarrow> cancel_body (run n) a w)"

definition Action_emitSuccess :: "nat \<Rightarrow> nat \<Rightarrow> jsval list \<Rightarrow> world \<Rightarrow> wresult" where
  "Action_emitSuccess n a args w = run n (Emit a ''success'' args) w"

definition Action_emitError :: "nat \<Rightarrow> nat \<Rightarrow> jsval list \<Rightarrow> world \<Rightarrow> wresult" where
  "Action_emitError n a args w = run n (Emit a ''error'' args) w"

definition Action_cancel :: "nat \<Rightarrow> nat \<Rightarrow> world \<Rightarrow> wresult" where
  "Action_cancel n a w = run n (Cancel a) w"

definition Action_new :: "nat \<Rightarrow> world \<Rightarrow> world" where
  "Action_new a w =
     w\<lparr>actions := (actions w)(a :=
         \<lparr>listeners = (\<lambda>ev. if ev = ''error'' then [UnhandledGuard a] else []),
          subActions = [], sm_handlers = Map.empty, sm_state = JUndefined\<rparr>)\<rparr>"

definition addListener :: "nat \<Rightarrow> string \<Rightarrow> listener \<Rightarrow> world \<Rightarrow> world" where
  "addListener a ev l w =
     w\<lparr>actions := (actions w)(a := (actions w a)
         \<lparr>listeners := (listeners (actions w a))(ev := listeners (actions w a) ev @ [l])\<rparr>)\<rparr>"

definition Action_start :: "nat \<Rightarrow> world \<Rightarrow> world" where
  "Action_start a w = w\<lparr>scheduled := scheduled w @ [a]\<rparr>"

text \<open>\<open>opts\<close> is the value of \<open>opts.bubbleErrors\<close>, or \<open>None\<close> when no options are passed.\<close>

definition Action_addAction :: "nat \<Rightarrow> nat \<Rightarrow> bool option \<Rightarrow> world \<Rightarrow> world" where
  "Action_addAction me subAction opts w =
     (let bubbleErrors = (case opts of None \<Rightarrow> True | Some b \<Rightarrow> b);
          w1 = w\<lparr>actions := (actions w)(me := (actions w me)
                  \<lparr>subActions := subActions (actions w me) @ [subAction]\<rparr>)\<rparr>;
          w2 = (if bubbleErrors
                then addListener subAction ''error'' (BubbleError me subAction) w1 else w1)
      in Action_start subAction w2)"

definition StateMachine_addState :: "nat \<Rightarrow> string \<Rightarrow> string option \<Rightarrow> world \<Rightarrow> world" where
  "StateMachine_addState me st handler w =
     (case sm_handlers (actions w me) st of
        Some h \<Rightarrow> puts (''Warning: a handler for '' @ st @ '' has already been defined.'') w
      | None \<Rightarrow>
          w\<lparr>actions := (actions w)(me := (actions w me)
              \<lparr>sm_handlers := (sm_handlers (actions w me))(st := handler)\<rparr>)\<rparr>)"

text \<open>
  Modelled from the spec: \<open>mixin\<close>, which the sources call and do not define. The spec
  gives \<open>transition\<close> the defaults \<open>success = 'success'\<close> and \<open>error = 'error'\<close>: a key the
  caller leaves out, or gives as \<open>undefined\<close>, takes its default; any other value the
  caller gives stands.
\<close>

definition mixin :: "spec \<Rightarrow> sopts" where
  "mixin opts =
     \<lparr>o_action = t_action opts,
      o_success = (case t_success opts of
                     None \<Rightarrow> JStr ''success''
                   | Some v \<Rightarrow> if v = JUndefined then JStr ''success'' else v),
      o_error = (case t_error opts of
                   None \<Rightarrow> JStr ''error''
                 | Some v \<Rightarrow> if v = JUndefined then JStr ''error'' else v),
      o_data = (case t_data opts of None \<Rightarrow> JUndefined | Some v \<Rightarrow> v)\<rparr>"

definition StateMachine_transition :: "nat \<Rightarrow> spec \<Rightarrow> world \<Rightarrow> wresult" where
  "StateMachine_transition me opts0 w =
     (let opts = mixin opts0 in
      if nullish (o_action opts)
      then Some (Raised (JStr ''Transition added with no action'') w)
      else case o_action opts of
        JAction a \<Rightarrow>
          (let w1 = addListener a ''success'' (TransitionListener me ''success'' opts) w;
               w2 = (if truthy (o_error opts)
                     then addListener a ''error'' (TransitionListener me ''error'' opts) w1
                     else w1)
           in Some (Done (Action_addAction me a (Some (\<not> truthy (o_error opts))) w2)))
      | _ \<Rightarrow> Some (Raised (type_error ''opts.action.addListener is not a function'') w))"

definition TransitionQueue_new :: "nat \<Rightarrow> nat \<Rightarrow> jsval \<Rightarrow> world \<Rightarrow> world" where
  "TransitionQueue_new q stateMachine finalState w =
     w\<lparr>queues := (queues w)(q :=
         \<lparr>q_stateMachine = stateMachine, q_finalState = finalState,
          q_transitions = [], q_started = False\<rparr>)\<rparr>"

definition TransitionQueue_addTransition :: "nat \<Rightarrow> spec \<Rightarrow> world \<Rightarrow> wresult" where
  "TransitionQueue_addTransition q tr w =
     (if q_started (queues w q) then Some (Raised (JStr ''Queue already started'') w)
      else Some (Done (w\<lparr>queues := (queues w)(q := (queues w q)
             \<lparr>q_transitions := q_transitions (queues w q) @ [tr]\<rparr>)\<rparr>)))"

text \<open>\<open>transition[event]\<close>, read from the object the caller queued.\<close>

definition declared :: "spec \<Rightarrow> string \<Rightarrow> jsval" where
  "declared tr event =
     (case (if event = ''success'' then t_success tr else t_error tr) of
        None \<Rightarrow> JUndefined
      | Some v \<Rightarrow> v)"

definition count_on :: "nat \<Rightarrow> nat \<Rightarrow> spec \<Rightarrow> string \<Rightarrow> world \<Rightarrow> wresult" where
  "count_on q c tr event w =
     (if \<not> truthy (declared tr event) \<and> event \<noteq> ''success'' then Some (Done w)
      else case t_action tr of
        JAction a \<Rightarrow> Some (Done (addListener a event (QueueCounter q c) w))
      | _ \<Rightarrow> Some (Raised (type_error ''transition.action.addListener is not a function'') w))"

primrec start_each :: "nat \<Rightarrow> nat \<Rightarrow> spec list \<Rightarrow> world \<Rightarrow> wresult" where
  "start_each q c [] w = Some (Done w)"
| "start_each q c (tr # rest) w =
     wbind (StateMachine_transition (q_stateMachine (queues w q)) tr w)
       (\<lambda>w1. wbind (count_on q c tr ''success'' w1)
         (\<lambda>w2. wbind (count_on q c tr ''error'' w2) (start_each q c rest)))"

definition TransitionQueue_start :: "nat \<Rightarrow> world \<Rightarrow> wresult" where
  "TransitionQueue_start q w =
     (let w1 = w\<lparr>queues := (queues w)(q := (queues w q)\<lparr>q_started := True\<rparr>)\<rparr>;
          c = n_counters w1;
          w2 = w1\<lparr>counters := (counters w1)(c := 0), n_counters := Suc c\<rparr>
      in wbind
           (if length (q_transitions (queues w2 q)) = 0
            then transitionTo (q_stateMachine (queues w2 q)) (q_finalState (queues w2 q)) [] w2
            else Some (Done w2))
           (start_each q c (q_transitions (queues w2 q))))"

primrec cancel_transitions :: "dispatcher \<Rightarrow> spec list \<Rightarrow> world \<Rightarrow> wresult" where
  "cancel_transitions rn [] w = Some (Done w)"
| "cancel_transitions rn (tr # rest) w =
     (case t_action tr of
        JAction a \<Rightarrow> wbind (rn (Cancel a) w) (cancel_transitions rn rest)
      | _ \<Rightarrow> Some (Raised (type_error ''transition.action.cancel is not a function'') w))"

definition TransitionQueue_cancel :: "nat \<Rightarrow> nat \<Rightarrow> world \<Rightarrow> wresult" where
  "TransitionQueue_cancel n q w = cancel_transitions (run n) (q_transitions (queues w q)) w"

text \<open>
  \<open>make\<close> wraps a function that takes a callback: the action it builds turns \<open>_active\<close>
  off when cancelled, and the callback it hands to the function checks \<open>_active\<close> before
  it emits.
\<close>

definition make :: "nat \<Rightarrow> world \<Rightarrow> world" where
  "make a w =
     addListener a ''cancel'' (MakeCancel a) ((Action_new a w)\<lparr>active := (active w)(a := True)\<rparr>)"

definition make_callback :: "nat \<Rightarrow> nat \<Rightarrow> jsval list \<Rightarrow> world \<Rightarrow> wresult" where
  "make_callback n a cbargs w =
     (if \<not> active w a then Some (Done w)
      else if truthy (arg0 cbargs) then Action_emitError n a [arg0 cbargs] w
      else Action_emitSuccess n a (tl cbargs) w)"

definition empty_world :: world where
  "empty_world =
     \<lparr>actions = (\<lambda>a. \<lparr>listeners = (\<lambda>ev. []), subActions = [], sm_handlers = Map.empty,
                       sm_state = JUndefined\<rparr>),
      queues = (\<lambda>q. \<lparr>q_stateMachine = 0, q_finalState = JUndefined, q_transitions = [],
                      q_started = False\<rparr>),
      counters = (\<lambda>c. 0), n_counters = 0, active = (\<lambda>a. False), printed = [], trace = [],
      scheduled = []\<rparr>"

section \<open>Predicates of the statements\<close>

text \<open>
  A plain step: a function that, called with no argument, returns and calls nothing of
  the machine (no jump, no transition, no emission), and that carries no \<open>wait\<close> marker
  where the revision reads one.
\<close>

definition plain_step :: "revision \<Rightarrow> func \<Rightarrow> bool" where
  "plain_step v f = (body f [] = [] \<and> (v = Prototype_rev \<or> \<not> wait f))"

text \<open>An exit hook that returns and calls nothing of the machine, and the call it leaves.\<close>

definition plain_hook :: "func option \<Rightarrow> bool" where
  "plain_hook h = (case h of None \<Rightarrow> True | Some fn \<Rightarrow> body fn [] = [])"

definition hook_calls :: "func option \<Rightarrow> (string \<times> jsval list) list" where
  "hook_calls h = (case h of None \<Rightarrow> [] | Some fn \<Rightarrow> [(fname fn, [])])"

text \<open>
  A completion or error callback of the user that concludes the machine as the README
  asks of it: it emits success or error, and does nothing else. \<open>conclusion\<close> is the
  event the machine then ends with; without a callback the constructor's handler emits
  the event \<open>ev\<close> with the arguments of the state.
\<close>

definition concluding :: "func option \<Rightarrow> bool" where
  "concluding h =
     (case h of
        None \<Rightarrow> True
      | Some f \<Rightarrow> \<forall>args. \<exists>p. body f args = [CallEmitSuccess p] \<or> body f args = [CallEmitError p])"

definition callback_calls :: "func option \<Rightarrow> jsval list \<Rightarrow> (string \<times> jsval list) list" where
  "callback_calls h args = (case h of None \<Rightarrow> [] | Some f \<Rightarrow> [(fname f, args)])"

definition conclusion :: "func option \<Rightarrow> string \<Rightarrow> jsval list \<Rightarrow> string \<times> jsval list" where
  "conclusion h ev args =
     (case h of
        None \<Rightarrow> (ev, args)
      | Some f \<Rightarrow>
          (case body f args of
             [CallEmitSuccess p] \<Rightarrow> (''success'', p)
           | [CallEmitError p] \<Rightarrow> (''error'', p)
           | _ \<Rightarrow> (ev, args)))"

text \<open>A thrown value that is a payload: neither \<open>undefined\<close> or \<open>null\<close>, nor startable.\<close>

definition plain_exception :: "jsval \<Rightarrow> bool" where
  "plain_exception e = (\<not> nullish e \<and> \<not> startable e)"

text \<open>\<open>if (e.stack) NobleMachine.logger.error(e.stack)\<close>\<close>

definition log_stack :: "jsval \<Rightarrow> machine \<Rightarrow> machine" where
  "log_stack e m = (case stack_of e of None \<Rightarrow> m | Some s \<Rightarrow> m\<lparr>logged := logged m @ [s]\<rparr>)"

text \<open>
  Listeners of the machine's events that return whatever they are called with, the
  calls of the listeners of an event, and a machine somebody listens to for \<open>error\<close>.
\<close>

definition quiet_hearers :: "machine \<Rightarrow> bool" where
  "quiet_hearers m = (\<forall>ev. \<forall>l \<in> set (hearers m ev). \<forall>args. hthrows l args = None)"

definition told :: "machine \<Rightarrow> string \<times> jsval list \<Rightarrow> (string \<times> jsval list) list" where
  "told m event = map (\<lambda>l. (hname l, snd event)) (hearers m (fst event))"

definition listened :: "machine \<Rightarrow> bool" where
  "listened m = (hearers m ''error'' \<noteq> [])"

text \<open>The machine after an event was emitted to listeners that return.\<close>

definition announced :: "string \<times> jsval list \<Rightarrow> machine \<Rightarrow> machine" where
  "announced event m =
     m\<lparr>running := False, emitted := emitted m @ [event], heard := heard m @ told m event\<rparr>"

text \<open>
  A running machine whose sequence holds the steps \<open>fs\<close> under distinct names, with the
  constructor's handlers for \<open>complete\<close> and \<open>error\<close>, completion and error callbacks
  that conclude (if any), a plain exit hook (if any), and listeners that return; a
  completion callback is there only on a machine that is listened to for \<open>error\<close>.
\<close>

definition plain_machine :: "revision \<Rightarrow> func list \<Rightarrow> machine \<Rightarrow> bool" where
  "plain_machine v fs m =
     (length (stateSequence m) = length fs \<and> distinct (stateSequence m) \<and>
      ''error'' \<notin> set (stateSequence m) \<and>
      (\<forall>i < length fs. handlers m (stateSequence m ! i) = Some (Function (fs ! i))) \<and>
      handlers m ''complete'' = Some CompleteFn \<and>
      handlers m ''error'' = Some ErrorFn \<and>
      concluding (completeHandler m) \<and> concluding (errorHandler m) \<and>
      plain_hook (exitHandler m) \<and> quiet_hearers m \<and>
      (listened m \<or> completeHandler m = None) \<and>
      running m \<and> \<not> transitioning m)"

text \<open>The name \<open>next\<close> gives the step declared at position \<open>i\<close>.\<close>

definition step_name :: "nat \<Rightarrow> string" where
  "step_name i = ''state'' @ show_nat i"

text \<open>Declaring the steps \<open>fs\<close>, one call of \<open>next\<close> after the other.\<close>

definition declare_steps :: "func list \<Rightarrow> machine \<Rightarrow> machine" where
  "declare_steps fs m = foldl (\<lambda>m f. nm_next (Function f) m) m fs"

text \<open>\<open>complete(ch)\<close> and \<open>error(eh)\<close>, each called only where the user has a callback.\<close>

definition with_callbacks :: "func option \<Rightarrow> func option \<Rightarrow> machine \<Rightarrow> machine" where
  "with_callbacks ch eh m =
     (let m1 = (case ch of None \<Rightarrow> m | Some h \<Rightarrow> nm_complete h m)
      in case eh of None \<Rightarrow> m1 | Some h \<Rightarrow> nm_error h m1)"

text \<open>\<open>addListener(ev, l)\<close> for each pair of a list, in order.\<close>

definition with_listeners :: "(string \<times> hearer) list \<Rightarrow> machine \<Rightarrow> machine" where
  "with_listeners ls m = foldl (\<lambda>m l. nm_addListener (fst l) (snd l) m) m ls"

text \<open>
  A machine as the user declares it: the steps, the listeners, the exit hook, the
  callbacks where there are any, and \<open>start\<close>.
\<close>

definition ensured ::
  "(string \<times> hearer) list \<Rightarrow> func \<Rightarrow> func option \<Rightarrow> func option \<Rightarrow> func list \<Rightarrow> machine" where
  "ensured ls fn ch eh fs =
     nm_start (with_callbacks ch eh (nm_ensure fn
       (with_listeners ls (declare_steps fs (NobleMachine Undefined)))))"

text \<open>A listener that returns whatever it is called with.\<close>

definition returning :: "hearer \<Rightarrow> bool" where
  "returning l = (\<forall>args. hthrows l args = None)"





section \<open>Example machines\<close>

definition ex_quiet :: "string \<Rightarrow> func" where
  "ex_quiet name = Func name False (\<lambda>args. [])"

definition ex_thrower :: func where
  "ex_thrower = Func ''thrower'' False (\<lambda>args. [Throw (JError ''bad'' ''Error: bad at step'')])"

definition ex_emitter :: func where
  "ex_emitter = Func ''emitter'' False (\<lambda>args. [CallEmitSuccess [JStr ''done'']])"

definition ex_machine :: "func list \<Rightarrow> machine" where
  "ex_machine fs = nm_start (declare_steps fs (NobleMachine Undefined))"

definition ex_listener :: "string \<Rightarrow> hearer" where
  "ex_listener name = Hearer name (\<lambda>args. None)"



definition ex_action_thrower :: func where
  "ex_action_thrower = Func ''throwsAction'' False (\<lambda>args. [Throw (JAction 5)])"

definition ex_heard :: "(string \<times> hearer) list" where
  "ex_heard = [(''error'', ex_listener ''onError'')]"

section \<open>Predicates of the statements about actions\<close>

text \<open>The world a call ends in, returned or raised.\<close>

definition world_of :: "wres \<Rightarrow> world" where
  "world_of r = (case r of Done w \<Rightarrow> w | Raised e w \<Rightarrow> w)"

text \<open>What no emission and no cancellation changes: who listens to what, who owns whom, the
  handlers and the queues, what was scheduled; the trace and the printed lines only grow,
  and an \<open>_active\<close> variable that is off stays off.\<close>

definition frame :: "world \<Rightarrow> world \<Rightarrow> bool" where
  "frame w w' =
     ((\<forall>a. listeners (actions w' a) = listeners (actions w a) \<and>
           subActions (actions w' a) = subActions (actions w a) \<and>
           sm_handlers (actions w' a) = sm_handlers (actions w a)) \<and>
      queues w' = queues w \<and> n_counters w' = n_counters w \<and> scheduled w' = scheduled w \<and>
      prefix (trace w) (trace w') \<and> prefix (printed w) (printed w') \<and>
      (\<forall>d. active w' d \<longrightarrow> active w d))"

definition framed :: "dispatcher \<Rightarrow> bool" where
  "framed rn = (\<forall>req w r. rn req w = Some r \<longrightarrow> frame w (world_of r))"

text \<open>Ownership: \<open>(p, s)\<close> when \<open>s\<close> is among the sub-actions of \<open>p\<close>. A rank that goes down
  along ownership makes the sub-actions a tree (nothing owns itself, directly or not).\<close>

definition owns :: "world \<Rightarrow> (nat \<times> nat) set" where
  "owns w = {(p, s). s \<in> set (subActions (actions w p))}"

definition ranked :: "world \<Rightarrow> (nat \<Rightarrow> nat) \<Rightarrow> bool" where
  "ranked w rk = (\<forall>p. \<forall>s \<in> set (subActions (actions w p)). rk s < rk p)"

text \<open>The listeners of \<open>cancel\<close> are those of the user and of \<open>make\<close>.\<close>

definition quiet_listener :: "listener \<Rightarrow> bool" where
  "quiet_listener l = (case l of UserListener name \<Rightarrow> True | MakeCancel a \<Rightarrow> True | _ \<Rightarrow> False)"

definition cancel_listeners_ok :: "world \<Rightarrow> bool" where
  "cancel_listeners_ok w = (\<forall>a. \<forall>l \<in> set (listeners (actions w a) ''cancel''). quiet_listener l)"

text \<open>What cancelling \<open>a\<close> leaves: each descendant \<open>d\<close> of \<open>a\<close> has emitted \<open>cancel\<close> in the
  part \<open>t\<close> of the trace, and is inactive if \<open>make\<close> built it.\<close>

definition cancelled_below :: "world \<Rightarrow> nat \<Rightarrow> obs list \<Rightarrow> world \<Rightarrow> bool" where
  "cancelled_below w a t w' =
     (\<forall>d. (a, d) \<in> (owns w)\<^sup>* \<longrightarrow>
        Emitted d ''cancel'' [] \<in> set t \<and>
        (MakeCancel d \<in> set (listeners (actions w d) ''cancel'') \<longrightarrow> \<not> active w' d))"

text \<open>A bubbling listener sits on an action below the action it re-emits on; with a bound
  \<open>R\<close> on the ranks this bounds how deep emissions nest.\<close>

definition bubble_ranked :: "world \<Rightarrow> (nat \<Rightarrow> nat) \<Rightarrow> bool" where
  "bubble_ranked w rk =
     (\<forall>a ev me sub. BubbleError me sub \<in> set (listeners (actions w a) ev) \<longrightarrow> rk a < rk me)"

definition tree_like :: "world \<Rightarrow> (nat \<Rightarrow> nat) \<Rightarrow> nat \<Rightarrow> bool" where
  "tree_like w rk R =
     (ranked w rk \<and> bubble_ranked w rk \<and> cancel_listeners_ok w \<and> (\<forall>a. rk a \<le> R))"

text \<open>The listeners of \<open>error\<close> an action has before it is added to a parent: the one of
  its constructor and those of the user.\<close>

definition guard_or_user :: "nat \<Rightarrow> listener \<Rightarrow> bool" where
  "guard_or_user s l =
     (case l of UnhandledGuard me \<Rightarrow> me = s | UserListener name \<Rightarrow> True | _ \<Rightarrow> False)"

definition user_listener :: "listener \<Rightarrow> bool" where
  "user_listener l = (case l of UserListener name \<Rightarrow> True | _ \<Rightarrow> False)"

text \<open>The calls \<open>me.addAction(c)\<close> for the actions \<open>c\<close> of a list, in order.\<close>

primrec add_all :: "nat \<Rightarrow> nat list \<Rightarrow> world \<Rightarrow> world" where
  "add_all me [] w = w"
| "add_all me (c # cs) w = add_all me cs (Action_addAction me c None w)"

text \<open>A trace of user listeners only.\<close>

definition heard_only :: "obs list \<Rightarrow> bool" where
  "heard_only t = (\<forall>ob \<in> set t. case ob of Heard name args \<Rightarrow> True | _ \<Rightarrow> False)"

text \<open>The arguments the listener of \<open>transition\<close> hands to the state handler: those of
  the event without a last \<open>undefined\<close>, then \<open>opts.data\<close> if there is any.\<close>

definition handed_on :: "sopts \<Rightarrow> jsval list \<Rightarrow> jsval list" where
  "handed_on opts args =
     (if args = [] \<or> nullish (last args) then butlast args else args) @
     (if truthy (o_data opts) then [o_data opts] else [])"

text \<open>The action of a queued spec.\<close>

definition spec_action :: "spec \<Rightarrow> nat" where
  "spec_action tr = (case t_action tr of JAction a \<Rightarrow> a | _ \<Rightarrow> 0)"

text \<open>The listeners that starting the queue adds to the action of a spec, per event.\<close>

definition added :: "nat \<Rightarrow> nat \<Rightarrow> nat \<Rightarrow> spec \<Rightarrow> string \<Rightarrow> listener list" where
  "added me q c tr ev =
     (if ev = ''success'' then [TransitionListener me ''success'' (mixin tr), QueueCounter q c]
      else if ev = ''error''
      then TransitionListener me ''error'' (mixin tr) #
             (if truthy (declared tr ''error'') then [QueueCounter q c] else [])
      else [])"

text \<open>A spec whose action is an action and whose targets, where the caller gives them, are
  truthy (a falsy error target asks for bubbling instead).\<close>

definition routed :: "spec \<Rightarrow> bool" where
  "routed tr =
     ((\<exists>a. t_action tr = JAction a) \<and> truthy (o_success (mixin tr)) \<and> truthy (o_error (mixin tr)))"

text \<open>What wiring the specs \<open>ts\<close> changes.\<close>

definition wired_by :: "nat \<Rightarrow> nat \<Rightarrow> nat \<Rightarrow> spec list \<Rightarrow> world \<Rightarrow> world \<Rightarrow> bool" where
  "wired_by me q c ts w w' =
     ((\<forall>b ev. listeners (actions w' b) ev =
         listeners (actions w b) ev @
           concat (map (\<lambda>tr. if spec_action tr = b then added me q c tr ev else []) ts)) \<and>
      (\<forall>b. sm_handlers (actions w' b) = sm_handlers (actions w b)) \<and>
      queues w' = queues w \<and> counters w' = counters w \<and> n_counters w' = n_counters w \<and>
      active w' = active w \<and> printed w' = printed w \<and> trace w' = trace w \<and>
      scheduled w' = scheduled w @ map spec_action ts)"

definition wired_queue :: "world \<Rightarrow> nat \<Rightarrow> nat \<Rightarrow> world \<Rightarrow> bool" where
  "wired_queue w0 q c w =
     (let me = q_stateMachine (queues w0 q); ts = q_transitions (queues w0 q) in
      q_stateMachine (queues w q) = me \<and> q_transitions (queues w q) = ts \<and>
      q_finalState (queues w q) = q_finalState (queues w0 q) \<and>
      sm_handlers (actions w me) = sm_handlers (actions w0 me) \<and>
      (\<forall>i < length ts. \<forall>ev.
         listeners (actions w (spec_action (ts ! i))) ev =
           listeners (actions w0 (spec_action (ts ! i))) ev @ added me q c (ts ! i) ev))"

text \<open>A completion report of the action of the spec at a position of the queue, and its
  delivery; a report counts when it is a success, or an error whose spec declares an
  error target.\<close>

datatype signal = Succeeds nat "jsval list" | Fails nat "jsval list"

definition signal_index :: "signal \<Rightarrow> nat" where
  "signal_index sg = (case sg of Succeeds i args \<Rightarrow> i | Fails i args \<Rightarrow> i)"

definition deliver :: "nat \<Rightarrow> spec list \<Rightarrow> signal \<Rightarrow> world \<Rightarrow> wresult" where
  "deliver n ts sg w =
     (case sg of
        Succeeds i args \<Rightarrow> Action_emitSuccess n (spec_action (ts ! i)) args w
      | Fails i args \<Rightarrow> Action_emitError n (spec_action (ts ! i)) args w)"

primrec deliver_all :: "nat \<Rightarrow> spec list \<Rightarrow> signal list \<Rightarrow> world \<Rightarrow> wresult" where
  "deliver_all n ts [] w = Some (Done w)"
| "deliver_all n ts (sg # sgs) w = wbind (deliver n ts sg w) (deliver_all n ts sgs)"

definition counted :: "spec list \<Rightarrow> signal \<Rightarrow> bool" where
  "counted ts sg =
     (case sg of Succeeds i args \<Rightarrow> True | Fails i args \<Rightarrow> truthy (declared (ts ! i) ''error''))"

text \<open>How often the handler of the state \<open>key\<close> of the machine \<open>me\<close> was called in a trace.\<close>

definition joins :: "nat \<Rightarrow> string \<Rightarrow> obs list \<Rightarrow> nat" where
  "joins me key t =
     length (filter (\<lambda>ob. case ob of Handled m k h args \<Rightarrow> m = me \<and> k = key | _ \<Rightarrow> False) t)"

text \<open>A queue ready to start: distinct actions that so far have only the listeners of their
  constructor and of the user, routed specs, a handler on the machine for every target
  and for the final state, and a final state that is no spec's target.\<close>

definition queue_ready :: "world \<Rightarrow> nat \<Rightarrow> bool" where
  "queue_ready w q =
     (let me = q_stateMachine (queues w q); ts = q_transitions (queues w q);
          fin = to_string (q_finalState (queues w q)); H = sm_handlers (actions w me)
      in distinct (map spec_action ts) \<and> H fin \<noteq> None \<and>
         (\<forall>tr \<in> set ts.
            routed tr \<and>
            H (to_string (o_success (mixin tr))) \<noteq> None \<and>
            H (to_string (o_error (mixin tr))) \<noteq> None \<and>
            to_string (o_success (mixin tr)) \<noteq> fin \<and> to_string (o_error (mixin tr)) \<noteq> fin \<and>
            (\<forall>l \<in> set (listeners (actions w (spec_action tr)) ''success''). user_listener l) \<and>
            (\<forall>l \<in> set (listeners (actions w (spec_action tr)) ''error'').
               guard_or_user (spec_action tr) l)))"

text \<open>A step from \<open>w\<close> to \<open>w'\<close> that raises the counter \<open>c\<close> by \<open>dk\<close> and calls the handler of
  the final state \<open>j\<close> times.\<close>

definition moved :: "nat \<Rightarrow> string \<Rightarrow> nat \<Rightarrow> world \<Rightarrow> world \<Rightarrow> nat \<Rightarrow> nat \<Rightarrow> bool" where
  "moved me fin c w w' dk j =
     (frame w w' \<and> counters w' c = counters w c + dk \<and>
      (\<exists>t. trace w' = trace w @ t \<and> joins me fin t = j))"

section \<open>Example worlds\<close>

definition ex_child_world :: world where
  "ex_child_world = Action_new 1 empty_world"

definition ex_state_machine :: world where
  "ex_state_machine = StateMachine_addState 0 ''load'' (Some ''first'') (Action_new 0 empty_world)"

definition ex_family :: world where
  "ex_family =
     Action_addAction 1 2 None (Action_addAction 0 1 None
       (make 2 (make 1 (Action_new 0 empty_world))))"

definition ex_listened :: world where
  "ex_listened = addListener 0 ''success'' (UserListener ''onSuccess'') (Action_new 0 empty_world)"

definition ex_unrelated :: world where
  "ex_unrelated =
     addListener 0 ''error'' (UserListener ''onError'')
       (Action_new 3 (Action_new 2 (Action_new 1 (Action_new 0 empty_world))))"

definition ex_machine_world :: world where
  "ex_machine_world =
     StateMachine_addState 0 ''error'' (Some ''onError'')
       (Action_new 1 (Action_new 0 empty_world))"

definition ex_opts :: spec where
  "ex_opts = \<lparr>t_action = JAction 1, t_success = None, t_error = None, t_data = None\<rparr>"

definition ex_specs :: "spec list" where
  "ex_specs =
     [\<lparr>t_action = JAction 1, t_success = None, t_error = None, t_data = None\<rparr>,
      \<lparr>t_action = JAction 2, t_success = Some (JStr ''loaded''),
        t_error = Some (JStr ''retry''), t_data = None\<rparr>]"

definition ex_queue_world :: world where
  "ex_queue_world =
     (StateMachine_addState 0 ''done'' (Some ''onDone'')
       (StateMachine_addState 0 ''retry'' (Some ''onRetry'')
         (StateMachine_addState 0 ''loaded'' (Some ''onLoaded'')
           (StateMachine_addState 0 ''error'' (Some ''onError'')
             (StateMachine_addState 0 ''success'' (Some ''onSuccess'')
               (Action_new 2 (Action_new 1 (Action_new 0 empty_world))))))))
     \<lparr>queues := (\<lambda>q. \<lparr>q_stateMachine = 0, q_finalState = JStr ''done'',
                        q_transitions = ex_specs, q_started = False\<rparr>)\<rparr>"

definition ex_falsy_opts :: spec where
  "ex_falsy_opts =
     \<lparr>t_action = JAction 1, t_success = None, t_error = Some (JBool False), t_data = None\<rparr>"

definition ex_busy_machine :: world where
  "ex_busy_machine = Action_addAction 0 2 None (Action_new 2 ex_machine_world)"

section \<open>The sequencer: lemmas\<close>

lemma and_then_simps [simp]:
  "and_then None k = None"
  "and_then (Some (Threw e m)) k = Some (Threw e m)"
  "and_then (Some (Returned m)) k = k m"
  by (simp_all add: and_then_def)

lemma indexOf_nth:
  "distinct xs \<Longrightarrow> i < length xs \<Longrightarrow> indexOf xs (xs ! i) = int i"
proof (induction xs arbitrary: i)
  case Nil
  then show ?case by simp
next
  case (Cons x xs)
  show ?case
  proof (cases i)
    case 0
    then show ?thesis by simp
  next
    case (Suc j)
    with Cons.prems have "indexOf xs (xs ! j) = int j"
      by (intro Cons.IH) auto
    moreover from Cons.prems Suc have "x \<noteq> xs ! j" by auto
    ultimately show ?thesis using Suc by (simp add: Let_def)
  qed
qed

lemma indexOf_absent: "x \<notin> set xs \<Longrightarrow> indexOf xs x = - 1"
  by (induction xs) (auto simp: Let_def)

lemma toNext_step:
  assumes "stateIndex m = int i - 1" "i < length (stateSequence m)"
  shows "toNext v rs [] m = rs (Name (stateSequence m ! i)) None m"
  using assms by (cases v) (simp_all add: toNext_def toState_def findState_def as_target_def Let_def)

lemma toNext_last:
  assumes "stateIndex m = int i - 1" "i = length (stateSequence m)"
  shows "toNext v rs [] m = rs (Name ''complete'') None m"
  using assms by (cases v) (simp_all add: toNext_def toComplete_def toState_def findState_def as_target_def Let_def)

declare runState.simps(2) [simp del]

lemma runState_Suc:
  "runState (Suc n) v t args m =
     go v (runState n v) (case args of None \<Rightarrow> [] | Some a \<Rightarrow> a) (enter m t)"
  by (simp add: runState.simps(2))

lemma enter_Name_fields [simp]:
  "state (enter m (Name s)) = Some s"
  "handlers (enter m t) = handlers m"
  "stateSequence (enter m t) = stateSequence m"
  "running (enter m t) = running m"
  "transitioning (enter m t) = transitioning m"
  "completeHandler (enter m t) = completeHandler m"
  "errorHandler (enter m t) = errorHandler m"
  "exitHandler (enter m t) = exitHandler m"
  "hearers (enter m t) = hearers m"
  "emitted (enter m t) = emitted m"
  "heard (enter m t) = heard m"
  "calls (enter m t) = calls m"
  "wired (enter m t) = wired m"
  "logged (enter m t) = logged m"
  by (simp_all add: enter_def findState_def Let_def)

lemma enter_Name_index:
  "stateIndex (enter m (Name s)) =
     (if indexOf (stateSequence m) s \<noteq> - 1 then indexOf (stateSequence m) s else stateIndex m)"
  by (simp add: enter_def findState_def Let_def)

lemma go_returned:
  "invoke v rs args m = Some (Returned m') \<Longrightarrow> go v rs args m = Some (Returned m')"
  by (simp add: go_def)

lemma invoke_function:
  "handlers m (state_key (state m)) = Some (Function f) \<Longrightarrow>
   invoke v rs args m =
     and_then (call_func v rs f args m) (after_function v rs (wait f) (state m))"
  by (simp add: invoke_def makeHandler_def)

lemma call_plain:
  "body f args = [] \<Longrightarrow>
   call_func v rs f args m = Some (Returned (m\<lparr>calls := calls m @ [(fname f, args)]\<rparr>))"
  by (simp add: call_func_def)

lemma onExit_plain:
  "plain_hook (exitHandler m) \<Longrightarrow>
   onExit v rs m = Some (Returned (m\<lparr>calls := calls m @ hook_calls (exitHandler m)\<rparr>))"
  by (simp add: onExit_def plain_hook_def hook_calls_def call_plain split: option.splits)

text \<open>Emitting to listeners that return, and to nobody.\<close>

lemma tell_quiet:
  "\<forall>l \<in> set ls. \<forall>a. hthrows l a = None \<Longrightarrow>
   tell ls args m = Some (Returned (m\<lparr>heard := heard m @ map (\<lambda>l. (hname l, args)) ls\<rparr>))"
  by (induction ls arbitrary: m) (simp_all add: Let_def)

lemma emitSuccess_quiet:
  "quiet_hearers m \<Longrightarrow> emitSuccess p m = Some (Returned (announced (''success'', p) m))"
  by (simp add: emitSuccess_def emit_def Let_def quiet_hearers_def tell_quiet announced_def told_def)

lemma emitError_quiet:
  "quiet_hearers m \<Longrightarrow> listened m \<Longrightarrow>
   emitError p m = Some (Returned (announced (''error'', p) m))"
  by (simp add: emitError_def emit_def Let_def quiet_hearers_def tell_quiet announced_def told_def
      listened_def)

lemma emitError_unheard:
  "\<not> listened m \<Longrightarrow>
   emitError p m =
     Some (Threw (uncaught p) (m\<lparr>running := False, emitted := emitted m @ [(''error'', p)]\<rparr>))"
  by (simp add: emitError_def emit_def Let_def listened_def)

lemma announced_fields [simp]:
  "handlers (announced event m) = handlers m"
  "stateSequence (announced event m) = stateSequence m"
  "stateIndex (announced event m) = stateIndex m"
  "state (announced event m) = state m"
  "transitioning (announced event m) = transitioning m"
  "completeHandler (announced event m) = completeHandler m"
  "errorHandler (announced event m) = errorHandler m"
  "exitHandler (announced event m) = exitHandler m"
  "hearers (announced event m) = hearers m"
  "calls (announced event m) = calls m"
  "wired (announced event m) = wired m"
  "logged (announced event m) = logged m"
  "\<not> running (announced event m)"
  "emitted (announced event m) = emitted m @ [event]"
  "heard (announced event m) = heard m @ told m event"
  by (simp_all add: announced_def)

lemma log_stack_fields [simp]:
  "handlers (log_stack e m) = handlers m"
  "stateSequence (log_stack e m) = stateSequence m"
  "stateIndex (log_stack e m) = stateIndex m"
  "state (log_stack e m) = state m"
  "running (log_stack e m) = running m"
  "transitioning (log_stack e m) = transitioning m"
  "completeHandler (log_stack e m) = completeHandler m"
  "errorHandler (log_stack e m) = errorHandler m"
  "exitHandler (log_stack e m) = exitHandler m"
  "hearers (log_stack e m) = hearers m"
  "emitted (log_stack e m) = emitted m"
  "heard (log_stack e m) = heard m"
  "calls (log_stack e m) = calls m"
  "wired (log_stack e m) = wired m"
  "logged (log_stack e m) = logged m @ (case stack_of e of None \<Rightarrow> [] | Some s \<Rightarrow> [s])"
  by (simp_all add: log_stack_def split: option.splits)

text \<open>What a callback that concludes does when called.\<close>

lemma call_concluding:
  assumes "concluding (Some h)" "quiet_hearers m" "listened m"
  shows "call_func v rs h args m =
           Some (Returned (announced (conclusion (Some h) ev args)
             (m\<lparr>calls := calls m @ [(fname h, args)]\<rparr>)))"
proof -
  let ?m1 = "m\<lparr>calls := calls m @ [(fname h, args)]\<rparr>"
  have q: "quiet_hearers ?m1" "listened ?m1"
    using assms(2,3) by (simp_all add: quiet_hearers_def listened_def told_def fun_eq_iff)
  from assms(1) obtain p where "body h args = [CallEmitSuccess p] \<or> body h args = [CallEmitError p]"
    by (auto simp: concluding_def)
  then show ?thesis
    using q by (auto simp: call_func_def exec_stmt_def conclusion_def emitSuccess_quiet emitError_quiet)
qed

text \<open>Entering a terminal state.\<close>

lemma complete_concludes:
  assumes "handlers m ''complete'' = Some CompleteFn" "concluding (completeHandler m)"
    "plain_hook (exitHandler m)" "running m" "quiet_hearers m"
    "listened m \<or> completeHandler m = None"
  shows "\<exists>m'. runState (Suc n) v (Name ''complete'') (Some args) m = Some (Returned m') \<and>
           state m' = Some ''complete'' \<and>
           calls m' = calls m @ callback_calls (completeHandler m) args @ hook_calls (exitHandler m) \<and>
           emitted m' = emitted m @ [conclusion (completeHandler m) ''success'' args] \<and>
           heard m' = heard m @ told m (conclusion (completeHandler m) ''success'' args) \<and>
           \<not> running m' \<and> logged m' = logged m"
proof (cases "completeHandler m")
  case None
  let ?m1 = "enter m (Name ''complete'')"
  let ?m2 = "?m1\<lparr>calls := calls m @ hook_calls (exitHandler m)\<rparr>"
  have q: "quiet_hearers ?m2" "told ?m2 = told m" using assms(5) by (simp_all add: quiet_hearers_def listened_def told_def fun_eq_iff)
  have "complete_fn v (runState n v) args ?m1 = Some (Returned (announced (''success'', args) ?m2))"
    using assms None q by (simp add: complete_fn_def onExit_plain emitSuccess_quiet)
  moreover have "\<not> advances v False (state ?m1) (announced (''success'', args) ?m2)"
    by (simp add: advances_def)
  ultimately have "invoke v (runState n v) args ?m1 =
      Some (Returned (announced (''success'', args) ?m2))"
    using assms by (simp add: invoke_def makeHandler_def state_key_def after_function_def)
  then have "runState (Suc n) v (Name ''complete'') (Some args) m =
      Some (Returned (announced (''success'', args) ?m2))"
    by (simp add: runState_Suc go_returned)
  then show ?thesis using None q
    by (simp add: callback_calls_def conclusion_def)
next
  case (Some h)
  let ?m1 = "enter m (Name ''complete'')"
  let ?c = "conclusion (Some h) ''success'' args"
  let ?m2 = "announced ?c (?m1\<lparr>calls := calls ?m1 @ [(fname h, args)]\<rparr>)"
  have q: "quiet_hearers ?m1" "listened ?m1" "told (?m1\<lparr>calls := calls ?m1 @ [(fname h, args)]\<rparr>) = told m"
    using assms(5,6) Some by (simp_all add: quiet_hearers_def listened_def told_def fun_eq_iff)
  have m2: "call_func v (runState n v) h args ?m1 = Some (Returned ?m2)"
    using call_concluding[OF _ q(1,2)] assms(2) Some by simp
  let ?m3 = "?m2\<lparr>calls := calls ?m2 @ hook_calls (exitHandler ?m2)\<rparr>"
  have "complete_fn v (runState n v) args ?m1 = Some (Returned ?m3)"
    using assms Some m2 by (simp add: complete_fn_def onExit_plain)
  moreover have "\<not> advances v False (state ?m1) ?m3"
    by (simp add: advances_def)
  ultimately have "invoke v (runState n v) args ?m1 = Some (Returned ?m3)"
    using assms by (simp add: invoke_def makeHandler_def state_key_def after_function_def)
  then have "runState (Suc n) v (Name ''complete'') (Some args) m = Some (Returned ?m3)"
    by (simp add: runState_Suc go_returned)
  then show ?thesis using Some q(3)
    by (simp add: callback_calls_def)
qed

lemma complete_concludes_None:
  assumes "handlers m ''complete'' = Some CompleteFn" "concluding (completeHandler m)"
    "plain_hook (exitHandler m)" "running m" "quiet_hearers m"
    "listened m \<or> completeHandler m = None"
  shows "\<exists>m'. runState (Suc n) v (Name ''complete'') None m = Some (Returned m') \<and>
           state m' = Some ''complete'' \<and>
           calls m' = calls m @ callback_calls (completeHandler m) [] @ hook_calls (exitHandler m) \<and>
           emitted m' = emitted m @ [conclusion (completeHandler m) ''success'' []] \<and>
           heard m' = heard m @ told m (conclusion (completeHandler m) ''success'' []) \<and>
           \<not> running m' \<and> logged m' = logged m"
  using complete_concludes[OF assms, of n v "[]"] by (simp add: runState_Suc)

lemma error_concludes:
  assumes "handlers m ''error'' = Some ErrorFn" "concluding (errorHandler m)"
    "plain_hook (exitHandler m)" "quiet_hearers m" "listened m"
  shows "\<exists>m'. runState (Suc n) v (Name ''error'') (Some args) m = Some (Returned m') \<and>
           state m' = Some ''error'' \<and>
           calls m' = calls m @ callback_calls (errorHandler m) args @ hook_calls (exitHandler m) \<and>
           emitted m' = emitted m @ [conclusion (errorHandler m) ''error'' args] \<and>
           heard m' = heard m @ told m (conclusion (errorHandler m) ''error'' args) \<and>
           \<not> running m' \<and> logged m' = logged m"
proof (cases "errorHandler m")
  case None
  let ?m1 = "enter m (Name ''error'')"
  let ?m2 = "?m1\<lparr>calls := calls m @ hook_calls (exitHandler m)\<rparr>"
  have q: "quiet_hearers ?m2" "listened ?m2" "told ?m2 = told m"
    using assms(4,5) by (simp_all add: quiet_hearers_def listened_def told_def fun_eq_iff)
  have "error_fn v (runState n v) args ?m1 = Some (Returned (announced (''error'', args) ?m2))"
    using assms None q by (simp add: error_fn_def onExit_plain emitError_quiet)
  moreover have "\<not> advances v False (state ?m1) (announced (''error'', args) ?m2)"
    by (simp add: advances_def)
  ultimately have "invoke v (runState n v) args ?m1 =
      Some (Returned (announced (''error'', args) ?m2))"
    using assms by (simp add: invoke_def makeHandler_def state_key_def after_function_def)
  then have "runState (Suc n) v (Name ''error'') (Some args) m =
      Some (Returned (announced (''error'', args) ?m2))"
    by (simp add: runState_Suc go_returned)
  then show ?thesis using None q
    by (simp add: callback_calls_def conclusion_def)
next
  case (Some h)
  let ?m1 = "enter m (Name ''error'')"
  let ?c = "conclusion (Some h) ''error'' args"
  let ?m2 = "announced ?c (?m1\<lparr>calls := calls ?m1 @ [(fname h, args)]\<rparr>)"
  have q: "quiet_hearers ?m1" "listened ?m1" "told (?m1\<lparr>calls := calls ?m1 @ [(fname h, args)]\<rparr>) = told m"
    using assms(4,5) by (simp_all add: quiet_hearers_def listened_def told_def fun_eq_iff)
  have m2: "call_func v (runState n v) h args ?m1 = Some (Returned ?m2)"
    using call_concluding[OF _ q(1,2)] assms(2) Some by simp
  let ?m3 = "?m2\<lparr>calls := calls ?m2 @ hook_calls (exitHandler ?m2)\<rparr>"
  have "error_fn v (runState n v) args ?m1 = Some (Returned ?m3)"
    using assms Some m2 by (simp add: error_fn_def onExit_plain)
  moreover have "\<not> advances v False (state ?m1) ?m3"
    by (simp add: advances_def)
  ultimately have "invoke v (runState n v) args ?m1 = Some (Returned ?m3)"
    using assms by (simp add: invoke_def makeHandler_def state_key_def after_function_def)
  then have "runState (Suc n) v (Name ''error'') (Some args) m = Some (Returned ?m3)"
    by (simp add: runState_Suc go_returned)
  then show ?thesis using Some q(3)
    by (simp add: callback_calls_def)
qed

lemma toError_plain:
  "plain_exception e \<Longrightarrow> toError v rs [e] m = rs (Name ''error'') (Some [e]) m"
  by (cases v; cases e) (simp_all add: toError_def toState_def findState_def as_target_def plain_exception_def)

lemma go_caught:
  "invoke v rs args m = Some (Threw e m') \<Longrightarrow> go v rs args m = go_catch v rs e m'"
  by (simp add: go_def)




lemma run_prefix:
  assumes "plain_machine v fs m" "\<forall>f \<in> set (take d (drop j fs)). plain_step v f"
    "j + d \<le> length fs" "stateIndex m = int j - 1"
  shows "\<exists>m'. (\<forall>r. toNext v (runState (Suc n) v) [] m' = Some (Returned r) \<longrightarrow>
                 toNext v (runState (Suc n + d) v) [] m = Some (Returned r)) \<and>
           plain_machine v fs m' \<and> stateIndex m' = int (j + d) - 1 \<and>
           calls m' = calls m @ map (\<lambda>f. (fname f, [])) (take d (drop j fs)) \<and>
           emitted m' = emitted m \<and> heard m' = heard m \<and> logged m' = logged m \<and>
           wired m' = wired m \<and> hearers m' = hearers m \<and> exitHandler m' = exitHandler m \<and>
           completeHandler m' = completeHandler m \<and> errorHandler m' = errorHandler m \<and>
           handlers m' = handlers m"
  using assms
proof (induction d arbitrary: m j)
  case 0
  then show ?case by auto
next
  case (Suc d)
  then have j: "j < length fs" by simp
  let ?s = "stateSequence m ! j"
  let ?f = "fs ! j"
  let ?m1 = "enter m (Name ?s)"
  let ?m2 = "?m1\<lparr>calls := calls ?m1 @ [(fname ?f, [])]\<rparr>"
  have pm: "plain_machine v fs m" by fact
  have dr: "take (Suc d) (drop j fs) = ?f # take d (drop (Suc j) fs)"
    using j by (simp add: Cons_nth_drop_Suc[symmetric])
  have idx: "indexOf (stateSequence m) ?s = int j"
    using pm j by (simp add: plain_machine_def indexOf_nth)
  have h: "handlers m ?s = Some (Function ?f)"
    using pm j by (simp_all add: plain_machine_def)
  have ps: "plain_step v ?f" using Suc.prems(2) dr by simp
  have pm2: "plain_machine v fs ?m2"
    using pm by (simp add: plain_machine_def quiet_hearers_def listened_def)
  have si: "stateIndex ?m2 = int (Suc j) - 1"
    by (simp add: enter_Name_index idx)
  have adv: "advances v (wait ?f) (state ?m1) ?m2"
    using pm ps by (auto simp: advances_def plain_machine_def plain_step_def)
  have "invoke v (runState (Suc n + d) v) [] ?m1 = toNext v (runState (Suc n + d) v) [] ?m2"
    using h ps adv by (simp add: invoke_function state_key_def call_plain plain_step_def after_function_def)
  then have step: "toNext v (runState (Suc n + d) v) [] ?m2 = Some (Returned r) \<Longrightarrow>
      toNext v (runState (Suc n + Suc d) v) [] m = Some (Returned r)" for r
    using pm j Suc.prems(4)
    by (simp add: toNext_step[where i=j] plain_machine_def runState_Suc go_returned)
  have rest: "\<forall>f \<in> set (take d (drop (Suc j) fs)). plain_step v f" using Suc.prems(2) dr by simp
  have "Suc j + d \<le> length fs" using Suc.prems by simp
  from Suc.IH[OF pm2 rest this si]
  obtain m' where m': "\<forall>r. toNext v (runState (Suc n) v) [] m' = Some (Returned r) \<longrightarrow>
       toNext v (runState (Suc n + d) v) [] ?m2 = Some (Returned r)"
    "plain_machine v fs m'" "stateIndex m' = int (Suc j + d) - 1"
    "calls m' = calls ?m2 @ map (\<lambda>f. (fname f, [])) (take d (drop (Suc j) fs))"
    "emitted m' = emitted ?m2" "heard m' = heard ?m2" "logged m' = logged ?m2"
    "wired m' = wired ?m2" "hearers m' = hearers ?m2" "exitHandler m' = exitHandler ?m2"
    "completeHandler m' = completeHandler ?m2" "errorHandler m' = errorHandler ?m2"
    "handlers m' = handlers ?m2"
    by blast
  show ?case
    by (rule exI[of _ m']) (use m' step dr in simp)
qed

lemma run_complete:
  assumes "plain_machine v fs m" "stateIndex m = int (length fs) - 1"
  shows "\<exists>m'. toNext v (runState (Suc n) v) [] m = Some (Returned m') \<and>
           state m' = Some ''complete'' \<and>
           calls m' = calls m @ callback_calls (completeHandler m) [] @ hook_calls (exitHandler m) \<and>
           emitted m' = emitted m @ [conclusion (completeHandler m) ''success'' []] \<and>
           heard m' = heard m @ told m (conclusion (completeHandler m) ''success'' []) \<and>
           \<not> running m' \<and> logged m' = logged m"
proof -
  have "toNext v (runState (Suc n) v) [] m = runState (Suc n) v (Name ''complete'') None m"
    using assms by (simp add: toNext_last[where i="length fs"] plain_machine_def)
  moreover have "handlers m ''complete'' = Some CompleteFn" "concluding (completeHandler m)"
    "plain_hook (exitHandler m)" "running m" "quiet_hearers m"
    "listened m \<or> completeHandler m = None"
    using assms(1) by (simp_all add: plain_machine_def)
  ultimately show ?thesis using complete_concludes_None[of m n v] by simp
qed

lemma run_all_plain:
  assumes pm: "plain_machine v fs m" and ps: "\<forall>f \<in> set fs. plain_step v f"
    and si: "stateIndex m = - 1" and n: "length fs < n"
  shows "\<exists>m'. toNext v (runState n v) [] m = Some (Returned m') \<and>
           state m' = Some ''complete'' \<and>
           calls m' = calls m @ map (\<lambda>f. (fname f, [])) fs @
             callback_calls (completeHandler m) [] @ hook_calls (exitHandler m) \<and>
           emitted m' = emitted m @ [conclusion (completeHandler m) ''success'' []] \<and>
           heard m' = heard m @ told m (conclusion (completeHandler m) ''success'' []) \<and>
           \<not> running m' \<and> logged m' = logged m"
proof -
  obtain n0 where n0: "n = Suc n0 + length fs"
    using n by (metis add.commute add_Suc_right less_iff_Suc_add)
  from run_prefix[of v fs m "length fs" 0 n0] pm ps si
  obtain m1 where m1: "\<forall>r. toNext v (runState (Suc n0) v) [] m1 = Some (Returned r) \<longrightarrow>
                 toNext v (runState (Suc n0 + length fs) v) [] m = Some (Returned r)"
      "plain_machine v fs m1" "stateIndex m1 = int (length fs) - 1"
      "calls m1 = calls m @ map (\<lambda>f. (fname f, [])) fs"
      "emitted m1 = emitted m" "heard m1 = heard m" "logged m1 = logged m"
      "hearers m1 = hearers m" "exitHandler m1 = exitHandler m"
      "completeHandler m1 = completeHandler m"
    by auto
  from run_complete[OF m1(2,3), of n0]
  obtain m' where m': "toNext v (runState (Suc n0) v) [] m1 = Some (Returned m')"
      "state m' = Some ''complete''"
      "calls m' = calls m1 @ callback_calls (completeHandler m1) [] @ hook_calls (exitHandler m1)"
      "emitted m' = emitted m1 @ [conclusion (completeHandler m1) ''success'' []]"
      "heard m' = heard m1 @ told m1 (conclusion (completeHandler m1) ''success'' [])"
      "\<not> running m'" "logged m' = logged m1"
    by blast
  have "told m1 = told m" using m1(8) by (simp add: told_def fun_eq_iff)
  then show ?thesis
    by (intro exI[of _ m']) (use m1 m' n0 in simp)
qed



lemma show_nat_nonempty: "show_nat n \<noteq> []"
  by (subst show_nat.simps) simp

lemma digit_inj:
  assumes "a < 10" "b < 10" "''0123456789'' ! a = ''0123456789'' ! b"
  shows "a = b"
proof -
  have d: "distinct ''0123456789''" by simp
  have "length ''0123456789'' = 10" by simp
  with assms d show ?thesis by (metis nth_eq_iff_index_eq)
qed

lemma show_nat_inj: "show_nat a = show_nat b \<Longrightarrow> a = b"
proof (induction a arbitrary: b rule: show_nat.induct)
  case (1 a)
  show ?case
  proof (cases "a < 10")
    case True
    then have sa: "show_nat a = [''0123456789'' ! a]" by (subst show_nat.simps) simp
    show ?thesis
    proof (cases "b < 10")
      case True
      then have "show_nat b = [''0123456789'' ! b]" by (subst show_nat.simps) simp
      with sa "1.prems" have "''0123456789'' ! a = ''0123456789'' ! b" by simp
      with \<open>a < 10\<close> True show ?thesis by (rule digit_inj)
    next
      case False
      then have "show_nat b = show_nat (b div 10) @ [''0123456789'' ! (b mod 10)]"
        by (subst show_nat.simps) simp
      with sa "1.prems" show_nat_nonempty[of "b div 10"] show ?thesis by simp
    qed
  next
    case False
    then have sa: "show_nat a = show_nat (a div 10) @ [''0123456789'' ! (a mod 10)]"
      by (subst show_nat.simps) simp
    show ?thesis
    proof (cases "b < 10")
      case True
      then have "show_nat b = [''0123456789'' ! b]" by (subst show_nat.simps) simp
      with sa "1.prems" show_nat_nonempty[of "a div 10"] show ?thesis by simp
    next
      case bf: False
      then have "show_nat b = show_nat (b div 10) @ [''0123456789'' ! (b mod 10)]"
        by (subst show_nat.simps) simp
      with sa "1.prems" have e: "show_nat (a div 10) = show_nat (b div 10)"
        "''0123456789'' ! (a mod 10) = ''0123456789'' ! (b mod 10)" by simp_all
      from "1.IH"[OF False e(1)] have "a div 10 = b div 10" .
      moreover have "a mod 10 = b mod 10"
        by (rule digit_inj[OF _ _ e(2)]) simp_all
      ultimately show ?thesis by (metis div_mult_mod_eq)
    qed
  qed
qed

lemma step_name_inj [simp]: "step_name i = step_name j \<longleftrightarrow> i = j"
  by (auto simp: step_name_def dest: show_nat_inj)

lemma step_name_not_reserved [simp]:
  "step_name i \<noteq> ''complete''" "step_name i \<noteq> ''error''"
  "''complete'' \<noteq> step_name i" "''error'' \<noteq> step_name i"
  by (simp_all add: step_name_def)

lemma declare_steps_snoc:
  "declare_steps (fs @ [f]) m = nm_next (Function f) (declare_steps fs m)"
  by (simp add: declare_steps_def)

lemma nm_next_step_name:
  "nm_next funcOrAct m = nm_nextState (step_name (length (stateSequence m))) funcOrAct m"
  by (simp add: nm_next_def step_name_def)

lemma nm_nextState_fields [simp]:
  "stateSequence (nm_nextState s h m) = stateSequence m @ [s]"
  "handlers (nm_nextState s h m) = (handlers m)(s \<mapsto> h)"
  "stateIndex (nm_nextState s h m) = stateIndex m"
  "state (nm_nextState s h m) = state m"
  "running (nm_nextState s h m) = running m"
  "transitioning (nm_nextState s h m) = transitioning m"
  "completeHandler (nm_nextState s h m) = completeHandler m"
  "errorHandler (nm_nextState s h m) = errorHandler m"
  "exitHandler (nm_nextState s h m) = exitHandler m"
  "hearers (nm_nextState s h m) = hearers m"
  "emitted (nm_nextState s h m) = emitted m"
  "heard (nm_nextState s h m) = heard m"
  "calls (nm_nextState s h m) = calls m"
  "wired (nm_nextState s h m) = wired m"
  "logged (nm_nextState s h m) = logged m"
  by (simp_all add: nm_nextState_def nm_addState_def Let_def)

lemma declare_steps_sequence:
  "stateSequence m = [] \<Longrightarrow> stateSequence (declare_steps fs m) = map step_name [0..<length fs]"
  by (induction fs rule: rev_induct)
     (simp_all add: declare_steps_snoc nm_next_step_name, simp add: declare_steps_def)

lemma declare_steps_handlers:
  "stateSequence m = [] \<Longrightarrow> i < length fs \<Longrightarrow>
   handlers (declare_steps fs m) (step_name i) = Some (Function (fs ! i))"
proof (induction fs rule: rev_induct)
  case Nil
  then show ?case by simp
next
  case (snoc f fs)
  then show ?case
    by (cases "i = length fs")
       (simp_all add: declare_steps_snoc nm_next_step_name declare_steps_sequence nth_append)
qed

lemma declare_steps_other:
  "stateSequence m = [] \<Longrightarrow> (\<forall>i. s \<noteq> step_name i) \<Longrightarrow>
   handlers (declare_steps fs m) s = handlers m s"
  by (induction fs rule: rev_induct)
     (simp_all add: declare_steps_snoc nm_next_step_name declare_steps_sequence, simp add: declare_steps_def)

lemma declare_steps_fields [simp]:
  "stateIndex (declare_steps fs m) = stateIndex m"
  "state (declare_steps fs m) = state m"
  "running (declare_steps fs m) = running m"
  "transitioning (declare_steps fs m) = transitioning m"
  "completeHandler (declare_steps fs m) = completeHandler m"
  "errorHandler (declare_steps fs m) = errorHandler m"
  "exitHandler (declare_steps fs m) = exitHandler m"
  "hearers (declare_steps fs m) = hearers m"
  "emitted (declare_steps fs m) = emitted m"
  "heard (declare_steps fs m) = heard m"
  "calls (declare_steps fs m) = calls m"
  "wired (declare_steps fs m) = wired m"
  "logged (declare_steps fs m) = logged m"
  by (induction fs rule: rev_induct,
      simp_all add: declare_steps_snoc nm_next_step_name, simp_all add: declare_steps_def)

lemma NobleMachine_fields [simp]:
  "stateSequence (NobleMachine Undefined) = []"
  "handlers (NobleMachine Undefined) ''complete'' = Some CompleteFn"
  "handlers (NobleMachine Undefined) ''error'' = Some ErrorFn"
  "stateIndex (NobleMachine Undefined) = - 1"
  "state (NobleMachine Undefined) = None"
  "\<not> running (NobleMachine Undefined)"
  "\<not> transitioning (NobleMachine Undefined)"
  "completeHandler (NobleMachine Undefined) = None"
  "errorHandler (NobleMachine Undefined) = None"
  "exitHandler (NobleMachine Undefined) = None"
  "hearers (NobleMachine Undefined) = (\<lambda>ev. [])"
  "emitted (NobleMachine Undefined) = []"
  "heard (NobleMachine Undefined) = []"
  "calls (NobleMachine Undefined) = []"
  "wired (NobleMachine Undefined) = []"
  "logged (NobleMachine Undefined) = []"
  by (simp_all add: NobleMachine_def nm_addState_def)

text \<open>Registering the callbacks and the listeners.\<close>

lemma with_callbacks_fields [simp]:
  "handlers (with_callbacks ch eh m) = handlers m"
  "stateSequence (with_callbacks ch eh m) = stateSequence m"
  "stateIndex (with_callbacks ch eh m) = stateIndex m"
  "state (with_callbacks ch eh m) = state m"
  "running (with_callbacks ch eh m) = running m"
  "transitioning (with_callbacks ch eh m) = transitioning m"
  "exitHandler (with_callbacks ch eh m) = exitHandler m"
  "completeHandler (with_callbacks ch eh m) = (if ch = None then completeHandler m else ch)"
  "errorHandler (with_callbacks ch eh m) = (if eh = None then errorHandler m else eh)"
  "hearers (with_callbacks ch eh m) = hearers m"
  "emitted (with_callbacks ch eh m) = emitted m"
  "heard (with_callbacks ch eh m) = heard m"
  "calls (with_callbacks ch eh m) = calls m"
  "wired (with_callbacks ch eh m) = wired m"
  "logged (with_callbacks ch eh m) = logged m"
  by (cases ch; cases eh; simp add: with_callbacks_def nm_complete_def nm_error_def)+

lemma with_listeners_snoc:
  "with_listeners (ls @ [l]) m = nm_addListener (fst l) (snd l) (with_listeners ls m)"
  by (simp add: with_listeners_def)

lemma with_listeners_fields [simp]:
  "handlers (with_listeners ls m) = handlers m"
  "stateSequence (with_listeners ls m) = stateSequence m"
  "stateIndex (with_listeners ls m) = stateIndex m"
  "state (with_listeners ls m) = state m"
  "running (with_listeners ls m) = running m"
  "transitioning (with_listeners ls m) = transitioning m"
  "exitHandler (with_listeners ls m) = exitHandler m"
  "completeHandler (with_listeners ls m) = completeHandler m"
  "errorHandler (with_listeners ls m) = errorHandler m"
  "emitted (with_listeners ls m) = emitted m"
  "heard (with_listeners ls m) = heard m"
  "calls (with_listeners ls m) = calls m"
  "wired (with_listeners ls m) = wired m"
  "logged (with_listeners ls m) = logged m"
  by (induction ls rule: rev_induct,
      simp_all add: with_listeners_snoc nm_addListener_def, simp_all add: with_listeners_def)

lemma with_listeners_hearers:
  "hearers (with_listeners ls m) ev = hearers m ev @ map snd (filter (\<lambda>l. fst l = ev) ls)"
proof (induction ls arbitrary: ev rule: rev_induct)
  case Nil
  then show ?case by (simp add: with_listeners_def)
next
  case (snoc x xs)
  then show ?case by (auto simp: with_listeners_snoc nm_addListener_def)
qed

lemma listened_plain:
  assumes "\<forall>l \<in> set ls. returning (snd l)"
  shows "plain_machine v fs (nm_start (with_listeners ls (declare_steps fs (NobleMachine Undefined))))"
proof -
  have "quiet_hearers (nm_start (with_listeners ls (declare_steps fs (NobleMachine Undefined))))"
    using assms
    by (auto simp: quiet_hearers_def nm_start_def with_listeners_hearers returning_def)
  then show ?thesis
    unfolding plain_machine_def
    by (auto simp: nm_start_def declare_steps_sequence declare_steps_handlers declare_steps_other
        distinct_map inj_on_def plain_hook_def concluding_def)
qed

lemma ensured_plain:
  assumes "body fn [] = []" "concluding ch" "concluding eh"
    "\<forall>l \<in> set ls. returning (snd l)" "''error'' \<in> fst ` set ls"
  shows "plain_machine v fs (ensured ls fn ch eh fs)" "listened (ensured ls fn ch eh fs)"
proof -
  have "\<exists>l \<in> set ls. fst l = ''error''" using assms(5) by force
  then have "filter (\<lambda>l. fst l = ''error'') ls \<noteq> []" by (simp add: filter_empty_conv)
  then show l: "listened (ensured ls fn ch eh fs)"
    by (simp add: listened_def ensured_def nm_start_def nm_ensure_def with_listeners_hearers)
  have q: "quiet_hearers (ensured ls fn ch eh fs)"
    using assms(4)
    by (auto simp: quiet_hearers_def ensured_def nm_start_def nm_ensure_def with_listeners_hearers
        returning_def)
  have "concluding (completeHandler (ensured ls fn ch eh fs))"
    "concluding (errorHandler (ensured ls fn ch eh fs))"
    using assms(2,3) by (auto simp: ensured_def nm_start_def nm_ensure_def concluding_def)
  with q l assms(1) show "plain_machine v fs (ensured ls fn ch eh fs)"
    unfolding plain_machine_def
    by (auto simp: ensured_def nm_start_def nm_ensure_def declare_steps_sequence
        declare_steps_handlers declare_steps_other distinct_map inj_on_def plain_hook_def)
qed

lemma ensured_fields [simp]:
  "stateIndex (ensured ls fn ch eh fs) = - 1"
  "calls (ensured ls fn ch eh fs) = []"
  "emitted (ensured ls fn ch eh fs) = []"
  "heard (ensured ls fn ch eh fs) = []"
  "wired (ensured ls fn ch eh fs) = []"
  "logged (ensured ls fn ch eh fs) = []"
  "exitHandler (ensured ls fn ch eh fs) = Some fn"
  "completeHandler (ensured ls fn ch eh fs) = ch"
  "errorHandler (ensured ls fn ch eh fs) = eh"
  by (simp_all add: ensured_def nm_start_def nm_ensure_def)

section \<open>The sequencer: claims\<close>

text \<open>
  C1, as amended. When the function of a declared step returns, the handler advances to
  the next declared state, with no arguments, if and only if the state is the one at
  entry, the function has no \<open>wait\<close> marker (which only the closure revision reads), no
  transition is pending and the machine is still running; otherwise it does nothing
  further. When the function throws, so does the handler.
\<close>

theorem auto_advance_decision:
  "(call_func v rs f args m = Some (Returned m') \<longrightarrow>
      makeHandler v rs (Function f) args m =
        (if state m' = state m \<and> (v = Prototype_rev \<or> \<not> wait f) \<and>
            \<not> transitioning m' \<and> running m'
         then toNext v rs [] m' else Some (Returned m'))) \<and>
   (call_func v rs f args m = Some (Threw e m') \<longrightarrow>
      makeHandler v rs (Function f) args m = Some (Threw e m'))"
  by (cases v) (auto simp: makeHandler_def after_function_def advances_def)

theorem auto_advance_decision_witness:
  "call_func Closure_rev (runState 2 Closure_rev) (ex_quiet ''a'') []
      (enter (ex_machine [ex_quiet ''a'']) (Index 0)) =
     Some (Returned ((enter (ex_machine [ex_quiet ''a'']) (Index 0))\<lparr>calls := [(''a'', [])]\<rparr>)) \<and>
   makeHandler Closure_rev (runState 2 Closure_rev) (Function (ex_quiet ''a'')) []
      (enter (ex_machine [ex_quiet ''a'']) (Index 0)) =
     toNext Closure_rev (runState 2 Closure_rev) []
       ((enter (ex_machine [ex_quiet ''a'']) (Index 0))\<lparr>calls := [(''a'', [])]\<rparr>)"
proof -
  let ?m = "enter (ex_machine [ex_quiet ''a'']) (Index 0)"
  have c: "call_func Closure_rev (runState 2 Closure_rev) (ex_quiet ''a'') [] ?m =
     Some (Returned (?m\<lparr>calls := [(''a'', [])]\<rparr>))"
    by (simp add: call_func_def ex_quiet_def ex_machine_def nm_start_def)
  have r: "running ?m" "\<not> transitioning ?m" "\<not> wait (ex_quiet ''a'')"
    by (simp_all add: ex_machine_def nm_start_def ex_quiet_def)
  from auto_advance_decision[of Closure_rev "runState 2 Closure_rev" "ex_quiet ''a''" "[]" ?m
      "?m\<lparr>calls := [(''a'', [])]\<rparr>"] c r
  show ?thesis by simp
qed

text \<open>
  The claim as stated fails: a step that emits success leaves the state unchanged,
  has no \<open>wait\<close> marker and leaves no transition pending, and the handler does not
  advance: the machine stays in \<open>state0\<close> and the next step is never called.
\<close>

theorem auto_advance_counterexample:
  "(case call_func Closure_rev (runState 3 Closure_rev) ex_emitter []
           (enter (ex_machine [ex_emitter, ex_quiet ''b'']) (Index 0)) of
      Some (Returned m') \<Rightarrow>
        state m' = state (enter (ex_machine [ex_emitter, ex_quiet ''b'']) (Index 0)) \<and>
        \<not> wait ex_emitter \<and> \<not> transitioning m'
    | _ \<Rightarrow> False) \<and>
   (case makeHandler Closure_rev (runState 3 Closure_rev) (Function ex_emitter) []
           (enter (ex_machine [ex_emitter, ex_quiet ''b'']) (Index 0)) of
      Some (Returned m2) \<Rightarrow>
        state m2 = Some ''state0'' \<and> calls m2 = [(''emitter'', [])] \<and>
        emitted m2 = [(''success'', [JStr ''done''])]
    | _ \<Rightarrow> False) \<and>
   (case start_tick 3 Closure_rev (ex_machine [ex_emitter, ex_quiet ''b'']) of
      Some (Returned m3) \<Rightarrow> state m3 = Some ''state0'' \<and> calls m3 = [(''emitter'', [])]
    | _ \<Rightarrow> False)"
  by code_simp

text \<open>
  C6. A machine with \<open>N\<close> declared steps, each a plain step (no asynchronous work, no
  jump), reaches \<open>complete\<close> after start: its run returns, the user functions called
  are the \<open>N\<close> steps, once each and in declared order, and the machine emits success,
  which the listeners of \<open>success\<close> (if any; they return) hear.
\<close>

theorem plain_steps_reach_complete:
  assumes "\<forall>f \<in> set fs. plain_step v f" and "\<forall>l \<in> set ls. returning (snd l)"
    and "length fs < n"
  shows "\<exists>m'. start_tick n v
               (nm_start (with_listeners ls (declare_steps fs (NobleMachine Undefined)))) =
             Some (Returned m') \<and>
           state m' = Some ''complete'' \<and>
           calls m' = map (\<lambda>f. (fname f, [])) fs \<and>
           emitted m' = [(''success'', [])] \<and>
           heard m' = map (\<lambda>l. (hname (snd l), [])) (filter (\<lambda>l. fst l = ''success'') ls) \<and>
           \<not> running m'"
  using run_all_plain[OF listened_plain[OF assms(2)] assms(1) _ assms(3)]
  by (auto simp: start_tick_def nm_start_def hook_calls_def callback_calls_def conclusion_def
      told_def with_listeners_hearers comp_def)

theorem plain_steps_reach_complete_witness:
  "\<exists>m'. start_tick 4 Prototype_rev
           (nm_start (with_listeners [(''success'', ex_listener ''onSuccess'')]
              (declare_steps [ex_quiet ''a'', ex_quiet ''b'', ex_quiet ''c'']
                 (NobleMachine Undefined)))) = Some (Returned m') \<and>
         state m' = Some ''complete'' \<and>
         calls m' = [(''a'', []), (''b'', []), (''c'', [])] \<and>
         emitted m' = [(''success'', [])] \<and> heard m' = [(''onSuccess'', [])] \<and> \<not> running m'"
  using plain_steps_reach_complete[of "[ex_quiet ''a'', ex_quiet ''b'', ex_quiet ''c'']"
      Prototype_rev "[(''success'', ex_listener ''onSuccess'')]" 4]
  by (simp add: plain_step_def ex_quiet_def returning_def ex_listener_def)




text \<open>
  C10, as amended. When the handler of the current state throws a value \<open>e\<close> other than
  \<open>undefined\<close> and \<open>null\<close>, \<open>go\<close> catches it and logs its stack if it has one. In the
  state \<open>error\<close> it emits \<open>e\<close> as the machine's error: to the listeners of \<open>error\<close>,
  which return; with no listener the emission throws, out of \<open>go\<close>. In another state it
  calls \<open>toError(e)\<close>: for an \<open>e\<close> that is not startable the machine enters the state
  \<open>error\<close> with \<open>e\<close> as its argument (where the error callback concludes and the
  listeners return, the callback, or with no callback the error event, receives \<open>e\<close>,
  and the exit hook is called); a startable \<open>e\<close> is wired as a transition to \<open>error\<close>
  instead.
\<close>

theorem thrown_in_handler_is_caught:
  assumes "invoke v (runState n v) args m = Some (Threw e m1)" and "\<not> nullish e"
  shows "(state m1 = Some ''error'' \<and> quiet_hearers m1 \<and> listened m1 \<longrightarrow>
            go v (runState n v) args m =
              Some (Returned (announced (''error'', [e]) (log_stack e m1)))) \<and>
         (state m1 = Some ''error'' \<and> \<not> listened m1 \<longrightarrow>
            go v (runState n v) args m =
              Some (Threw (uncaught [e])
                ((log_stack e m1)\<lparr>running := False, emitted := emitted m1 @ [(''error'', [e])]\<rparr>))) \<and>
         (state m1 \<noteq> Some ''error'' \<and> \<not> startable e \<longrightarrow>
            go v (runState n v) args m =
              runState n v (Name ''error'') (Some [e]) (log_stack e m1)) \<and>
         (state m1 \<noteq> Some ''error'' \<and> \<not> startable e \<and> 0 < n \<and>
          handlers m1 ''error'' = Some ErrorFn \<and> concluding (errorHandler m1) \<and>
          plain_hook (exitHandler m1) \<and> quiet_hearers m1 \<and> listened m1 \<longrightarrow>
            (\<exists>m'. go v (runState n v) args m = Some (Returned m') \<and>
               state m' = Some ''error'' \<and>
               calls m' = calls m1 @ callback_calls (errorHandler m1) [e] @
                 hook_calls (exitHandler m1) \<and>
               emitted m' = emitted m1 @ [conclusion (errorHandler m1) ''error'' [e]] \<and>
               \<not> running m' \<and>
               logged m' = logged m1 @ (case stack_of e of None \<Rightarrow> [] | Some s \<Rightarrow> [s]))) \<and>
         (state m1 \<noteq> Some ''error'' \<and> startable e \<longrightarrow>
            go v (runState n v) args m =
              Some (Returned (m1\<lparr>wired := wired m1 @
                  [\<lparr>w_action = e, w_success = ''error'', w_error = ''error'', w_argdata = []\<rparr>],
                transitioning := True\<rparr>)))"
proof -
  let ?m2 = "log_stack e m1"
  have gc: "go v (runState n v) args m = go_catch v (runState n v) e m1"
    using assms(1) by (rule go_caught)
  have eq: "go_catch v (runState n v) e m1 =
      (if state m1 = Some ''error'' then emitError [e] ?m2 else toError v (runState n v) [e] ?m2)"
    using assms(2) by (simp add: go_catch_def log_stack_def Let_def split: option.splits)
  have q: "quiet_hearers ?m2 = quiet_hearers m1" "listened ?m2 = listened m1" "told ?m2 = told m1"
    by (simp_all add: quiet_hearers_def listened_def told_def fun_eq_iff)
  have c1: "go v (runState n v) args m = Some (Returned (announced (''error'', [e]) ?m2))"
    if "state m1 = Some ''error''" "quiet_hearers m1" "listened m1"
    using that q by (simp add: gc eq emitError_quiet)
  have c2: "go v (runState n v) args m =
      Some (Threw (uncaught [e])
        (?m2\<lparr>running := False, emitted := emitted m1 @ [(''error'', [e])]\<rparr>))"
    if "state m1 = Some ''error''" "\<not> listened m1"
    using that q emitError_unheard[of ?m2 "[e]"] by (simp add: gc eq)
  have c3: "go v (runState n v) args m = runState n v (Name ''error'') (Some [e]) ?m2"
    if "state m1 \<noteq> Some ''error''" "\<not> startable e"
    using that assms(2) by (simp add: gc eq toError_plain plain_exception_def)
  have c4: "\<exists>m'. go v (runState n v) args m = Some (Returned m') \<and>
               state m' = Some ''error'' \<and>
               calls m' = calls m1 @ callback_calls (errorHandler m1) [e] @
                 hook_calls (exitHandler m1) \<and>
               emitted m' = emitted m1 @ [conclusion (errorHandler m1) ''error'' [e]] \<and>
               \<not> running m' \<and>
               logged m' = logged m1 @ (case stack_of e of None \<Rightarrow> [] | Some s \<Rightarrow> [s])"
    if t: "state m1 \<noteq> Some ''error''" "\<not> startable e" "0 < n"
      "handlers m1 ''error'' = Some ErrorFn" "concluding (errorHandler m1)"
      "plain_hook (exitHandler m1)" "quiet_hearers m1" "listened m1"
  proof -
    obtain n0 where n0: "n = Suc n0" using t(3) by (cases n) auto
    have "handlers ?m2 ''error'' = Some ErrorFn" "concluding (errorHandler ?m2)"
      "plain_hook (exitHandler ?m2)" "quiet_hearers ?m2" "listened ?m2"
      using t q by simp_all
    from error_concludes[OF this, of n0 v "[e]"] c3[OF t(1,2)] show ?thesis
      by (auto simp: n0)
  qed
  have c5: "go v (runState n v) args m =
      Some (Returned (m1\<lparr>wired := wired m1 @
          [\<lparr>w_action = e, w_success = ''error'', w_error = ''error'', w_argdata = []\<rparr>],
        transitioning := True\<rparr>))"
    if "state m1 \<noteq> Some ''error''" "startable e"
  proof -
    from that(2) obtain a where a: "e = JAction a" by (cases e) simp_all
    have m2: "?m2 = m1" by (simp add: log_stack_def a)
    have "toError v (runState n v) [JAction a] m1 =
        Some (Returned (m1\<lparr>wired := wired m1 @
            [\<lparr>w_action = JAction a, w_success = ''error'', w_error = ''error'', w_argdata = []\<rparr>],
          transitioning := True\<rparr>))"
      by (cases v)
         (simp_all add: toError_def toState_def findState_def transition_def or_default_def Let_def)
    moreover have "go_catch v (runState n v) e m1 = toError v (runState n v) [e] m1"
      using that(1) m2 by (simp add: eq)
    ultimately show ?thesis by (simp add: gc a)
  qed
  from c1 c2 c3 c4 c5 show ?thesis by blast
qed

theorem thrown_in_handler_is_caught_witness:
  "invoke Prototype_rev (runState 2 Prototype_rev) []
      (enter (ensured ex_heard (ex_quiet ''close'') None None [ex_thrower]) (Index 0)) =
     Some (Threw (JError ''bad'' ''Error: bad at step'')
       ((enter (ensured ex_heard (ex_quiet ''close'') None None [ex_thrower]) (Index 0))
          \<lparr>calls := [(''thrower'', [])]\<rparr>)) \<and>
   (\<exists>m'. go Prototype_rev (runState 2 Prototype_rev) []
            (enter (ensured ex_heard (ex_quiet ''close'') None None [ex_thrower]) (Index 0)) =
          Some (Returned m') \<and>
        state m' = Some ''error'' \<and>
        calls m' = [(''thrower'', []), (''close'', [])] \<and>
        emitted m' = [(''error'', [JError ''bad'' ''Error: bad at step''])] \<and>
        \<not> running m' \<and> logged m' = [''Error: bad at step''])"
proof -
  let ?M = "ensured ex_heard (ex_quiet ''close'') None None [ex_thrower]"
  let ?m = "enter ?M (Index 0)"
  let ?e = "JError ''bad'' ''Error: bad at step''"
  let ?m1 = "?m\<lparr>calls := [(''thrower'', [])]\<rparr>"
  have pm: "plain_machine Prototype_rev [ex_thrower] ?M" "listened ?M"
    by (rule ensured_plain;
        simp add: ex_quiet_def concluding_def ex_heard_def returning_def ex_listener_def)+
  have seq: "stateSequence ?M = [''state0'']"
    by (simp add: ensured_def nm_start_def nm_ensure_def declare_steps_sequence step_name_def
        show_nat.simps)
  have h: "handlers ?M ''state0'' = Some (Function ex_thrower)"
    using pm(1) seq by (simp add: plain_machine_def)
  have st: "state ?m = Some ''state0''"
    by (simp add: enter_def findState_def seq Let_def)
  have f: "handlers ?m = handlers ?M" "hearers ?m = hearers ?M" "errorHandler ?m = None"
    "exitHandler ?m = Some (ex_quiet ''close'')" "calls ?m = []" "emitted ?m = []" "logged ?m = []"
    by simp_all
  have i: "invoke Prototype_rev (runState 2 Prototype_rev) [] ?m = Some (Threw ?e ?m1)"
    using h st f
    by (simp add: invoke_function state_key_def call_func_def exec_stmt_def ex_thrower_def)
  have p: "state ?m1 \<noteq> Some ''error''" "\<not> startable ?e" "(0::nat) < 2"
    "handlers ?m1 ''error'' = Some ErrorFn" "concluding (errorHandler ?m1)"
    "plain_hook (exitHandler ?m1)" "quiet_hearers ?m1" "listened ?m1"
    using pm st f
    by (simp_all add: plain_machine_def quiet_hearers_def listened_def concluding_def
        plain_hook_def ex_quiet_def)
  have n: "\<not> nullish ?e" by simp
  from thrown_in_handler_is_caught[OF i n] p
  have "\<exists>m'. go Prototype_rev (runState 2 Prototype_rev) [] ?m = Some (Returned m') \<and>
        state m' = Some ''error'' \<and>
        calls m' = calls ?m1 @ callback_calls (errorHandler ?m1) [?e] @ hook_calls (exitHandler ?m1) \<and>
        emitted m' = emitted ?m1 @ [conclusion (errorHandler ?m1) ''error'' [?e]] \<and>
        \<not> running m' \<and>
        logged m' = logged ?m1 @ (case stack_of ?e of None \<Rightarrow> [] | Some s \<Rightarrow> [s])"
    by blast
  then have g: "\<exists>m'. go Prototype_rev (runState 2 Prototype_rev) [] ?m = Some (Returned m') \<and>
        state m' = Some ''error'' \<and>
        calls m' = [(''thrower'', []), (''close'', [])] \<and>
        emitted m' = [(''error'', [?e])] \<and>
        \<not> running m' \<and> logged m' = [''Error: bad at step'']"
    using f by (simp add: callback_calls_def hook_calls_def conclusion_def ex_quiet_def)
  from i g show ?thesis by (intro conjI)
qed

text \<open>
  The claim as stated fails. On a machine nobody listens to, the exception leaves \<open>go\<close>:
  the error state emits it, the emission throws, and so does the one of the \<open>catch\<close>
  block. And a thrown action does not take the machine to the state \<open>error\<close>.
\<close>

theorem thrown_escapes_counterexample:
  "(case go Prototype_rev (runState 2 Prototype_rev) []
           (enter (ex_machine [ex_thrower]) (Index 0)) of
      Some (Threw e m') \<Rightarrow>
        e = JError ''bad'' ''Error: bad at step'' \<and>
        calls m' = [(''thrower'', [])] \<and> state m' = Some ''error''
    | _ \<Rightarrow> False) \<and>
   (case go Closure_rev (runState 2 Closure_rev) []
           (enter (ex_machine [ex_thrower]) (Index 0)) of
      Some (Threw e m') \<Rightarrow> e = JError ''bad'' ''Error: bad at step''
    | _ \<Rightarrow> False) \<and>
   (case go Prototype_rev (runState 2 Prototype_rev) []
           (enter (ensured ex_heard (ex_quiet ''close'') None None [ex_action_thrower]) (Index 0)) of
      Some (Returned m') \<Rightarrow>
        state m' = Some ''state0'' \<and> emitted m' = [] \<and> calls m' = [(''throwsAction'', [])] \<and>
        map w_action (wired m') = [JAction 5]
    | _ \<Rightarrow> False)"
  by code_simp

section \<open>Actions: lemmas\<close>

declare run.simps(2) [simp del]

lemma run_Emit: "run (Suc n) (Emit a ev args) w = emit_body (run n) a ev args w"
  by (simp add: run.simps(2))

lemma run_Cancel: "run (Suc n) (Cancel a) w = cancel_body (run n) a w"
  by (simp add: run.simps(2))

lemma wbind_simps [simp]:
  "wbind None k = None"
  "wbind (Some (Raised e w)) k = Some (Raised e w)"
  "wbind (Some (Done w)) k = k w"
  by (simp_all add: wbind_def)

lemma world_of_simps [simp]: "world_of (Done w) = w" "world_of (Raised e w) = w"
  by (simp_all add: world_of_def)

lemma frame_refl [simp]: "frame w w"
  by (simp add: frame_def)

lemma frame_trans: "frame w w1 \<Longrightarrow> frame w1 w2 \<Longrightarrow> frame w w2"
  unfolding frame_def by (metis prefix_order.order_trans)

lemma wbind_frame:
  assumes "wbind x k = Some r"
    and "\<And>r0. x = Some r0 \<Longrightarrow> frame w (world_of r0)"
    and "\<And>w1 r1. x = Some (Done w1) \<Longrightarrow> k w1 = Some r1 \<Longrightarrow> frame w1 (world_of r1)"
  shows "frame w (world_of r)"
proof (cases x)
  case None
  with assms(1) show ?thesis by simp
next
  case (Some r0)
  show ?thesis
  proof (cases r0)
    case (Done w1)
    with Some assms show ?thesis by (auto intro: frame_trans[of w w1])
  next
    case (Raised e w1)
    with Some assms show ?thesis by auto
  qed
qed

lemma frame_observe [simp]: "frame w (observe ob w)"
  by (simp add: frame_def observe_def)

lemma frame_puts [simp]: "frame w (puts s w)"
  by (simp add: frame_def puts_def)

lemma frame_set_state [simp]: "frame w (set_state m st w)"
  by (simp add: frame_def set_state_def)

lemma unhandled_guard_frame:
  "unhandled_guard me args w = Some r \<Longrightarrow> frame w (world_of r)"
  by (auto simp: unhandled_guard_def Let_def split: if_splits option.splits
      intro: frame_trans[OF frame_puts frame_puts])

lemma transitionNow_frame: "transitionNow me args w = Some r \<Longrightarrow> frame w (world_of r)"
  by (auto simp: transitionNow_def Let_def split: option.splits)

lemma transitionTo_frame: "transitionTo me st args w = Some r \<Longrightarrow> frame w (world_of r)"
  unfolding transitionTo_def
  by (rule frame_trans[OF frame_set_state]) (rule transitionNow_frame)

lemma transition_listener_frame:
  "transition_listener me ev opts args w = Some r \<Longrightarrow> frame w (world_of r)"
  by (auto simp: transition_listener_def Let_def split: if_splits
      dest: transitionNow_frame intro: frame_trans[OF frame_set_state])

lemma frame_counter [simp]: "frame w (w\<lparr>counters := c\<rparr>)"
  by (simp add: frame_def)

lemma queue_counter_frame: "queue_counter q c w = Some r \<Longrightarrow> frame w (world_of r)"
  by (auto simp: queue_counter_def Let_def split: if_splits
      dest!: transitionTo_frame intro: frame_trans[OF frame_counter])

lemma cancel_others_frame:
  assumes "framed rn"
  shows "cancel_others rn s xs w = Some r \<Longrightarrow> frame w (world_of r)"
proof (induction xs arbitrary: w r)
  case Nil
  then show ?case by auto
next
  case (Cons x xs)
  show ?case
  proof (cases "x = s")
    case True
    with Cons show ?thesis by simp
  next
    case False
    with Cons.prems have "wbind (rn (Cancel x) w) (cancel_others rn s xs) = Some r" by simp
    then show ?thesis
      by (rule wbind_frame) (use assms Cons.IH in \<open>auto simp: framed_def\<close>)
  qed
qed

lemma cancel_each_frame:
  assumes "framed rn"
  shows "cancel_each rn xs w = Some r \<Longrightarrow> frame w (world_of r)"
proof (induction xs arbitrary: w r)
  case Nil
  then show ?case by auto
next
  case (Cons x xs)
  then have "wbind (rn (Cancel x) w) (cancel_each rn xs) = Some r" by simp
  then show ?case
    by (rule wbind_frame) (use assms Cons.IH in \<open>auto simp: framed_def\<close>)
qed

lemma bubble_error_frame:
  assumes "framed rn" "bubble_error rn me s args w = Some r"
  shows "frame w (world_of r)"
  using assms(2) unfolding bubble_error_def
  by (rule wbind_frame) (use assms(1) in \<open>auto simp: framed_def dest: cancel_others_frame[OF assms(1)]\<close>)

lemma frame_active [simp]: "frame w (w\<lparr>active := (active w)(a := False)\<rparr>)"
  by (simp add: frame_def)

lemma apply_listener_frame:
  assumes "framed rn" "apply_listener rn l args w = Some r"
  shows "frame w (world_of r)"
  using assms
  by (cases l)
     (auto simp: apply_listener_def
       dest: unhandled_guard_frame bubble_error_frame transition_listener_frame queue_counter_frame)

lemma run_listeners_frame:
  assumes "framed rn"
  shows "run_listeners rn ls args w = Some r \<Longrightarrow> frame w (world_of r)"
proof (induction ls arbitrary: w r)
  case Nil
  then show ?case by auto
next
  case (Cons l ls)
  then have "wbind (apply_listener rn l args w) (run_listeners rn ls args) = Some r" by simp
  then show ?case
    by (rule wbind_frame) (use assms Cons.IH in \<open>auto dest: apply_listener_frame\<close>)
qed

lemma emit_body_frame:
  assumes "framed rn" "emit_body rn a ev args w = Some r"
  shows "frame w (world_of r)"
proof (cases "ev = ''error'' \<and> listeners (actions w a) ev = []")
  case True
  with assms(2) show ?thesis by (auto simp: emit_body_def Let_def)
next
  case False
  with assms(2) have "run_listeners rn (listeners (actions w a) ev) args
      (observe (Emitted a ev args) w) = Some r"
    by (auto simp: emit_body_def Let_def)
  then show ?thesis
    by (rule frame_trans[OF frame_observe run_listeners_frame[OF assms(1)]])
qed

lemma emit_body_trace:
  assumes "framed rn" "emit_body rn a ev args w = Some r"
  shows "\<exists>t. trace (world_of r) = trace w @ Emitted a ev args # t"
proof (cases "ev = ''error'' \<and> listeners (actions w a) ev = []")
  case True
  with assms(2) show ?thesis by (auto simp: emit_body_def Let_def observe_def)
next
  case False
  with assms(2) have "run_listeners rn (listeners (actions w a) ev) args
      (observe (Emitted a ev args) w) = Some r"
    by (auto simp: emit_body_def Let_def)
  from run_listeners_frame[OF assms(1) this] show ?thesis
    by (auto simp: frame_def prefix_def observe_def)
qed

lemma cancel_body_frame:
  assumes "framed rn" "cancel_body rn a w = Some r"
  shows "frame w (world_of r)"
  using assms(2) unfolding cancel_body_def
  by (rule wbind_frame)
     (use assms(1) in \<open>auto dest: cancel_each_frame[OF assms(1)] emit_body_frame[OF assms(1)]\<close>)

lemma run_framed: "framed (run n)"
proof (induction n)
  case 0
  then show ?case by (simp add: framed_def)
next
  case (Suc n)
  show ?case unfolding framed_def
  proof (intro allI impI)
    fix req w r
    assume "run (Suc n) req w = Some r"
    then show "frame w (world_of r)"
      by (cases req) (auto simp: run_Emit run_Cancel dest: emit_body_frame[OF Suc] cancel_body_frame[OF Suc])
  qed
qed


lemma Action_new_listeners:
  "listeners (actions (Action_new a w) a) ''error'' = [UnhandledGuard a]"
  by (simp add: Action_new_def)

lemma mixin_error_falsy:
  "(\<not> truthy (o_error (mixin opts))) =
     (\<exists>v. t_error opts = Some v \<and> v \<noteq> JUndefined \<and> \<not> truthy v)"
  by (auto simp: mixin_def split: option.splits)

lemma frame_owns: "frame w w' \<Longrightarrow> owns w' = owns w"
  by (simp add: frame_def owns_def)

lemma frame_ranked: "frame w w' \<Longrightarrow> ranked w' rk = ranked w rk"
  by (simp add: frame_def ranked_def)

lemma frame_cancel_ok: "frame w w' \<Longrightarrow> cancel_listeners_ok w' = cancel_listeners_ok w"
  by (simp add: frame_def cancel_listeners_ok_def)

lemma frame_listeners: "frame w w' \<Longrightarrow> listeners (actions w' a) = listeners (actions w a)"
  by (simp add: frame_def)

lemma frame_inactive: "frame w w' \<Longrightarrow> \<not> active w d \<Longrightarrow> \<not> active w' d"
  by (auto simp: frame_def)

lemma frame_trace: "frame w w' \<Longrightarrow> \<exists>t. trace w' = trace w @ t"
  by (auto simp: frame_def prefix_def)

lemma run_quiet_listeners:
  assumes "\<forall>l \<in> set ls. quiet_listener l"
  shows "\<exists>w'. run_listeners rn ls args w = Some (Done w') \<and> frame w w' \<and>
           (\<forall>a. MakeCancel a \<in> set ls \<longrightarrow> \<not> active w' a)"
  using assms
proof (induction ls arbitrary: w)
  case Nil
  then show ?case by simp
next
  case (Cons l ls)
  then have q: "quiet_listener l" and qs: "\<forall>l \<in> set ls. quiet_listener l" by simp_all
  from q obtain w1 where w1: "apply_listener rn l args w = Some (Done w1)" "frame w w1"
    "\<forall>a. l = MakeCancel a \<longrightarrow> \<not> active w1 a"
    by (cases l) (auto simp: quiet_listener_def apply_listener_def)
  from Cons.IH[OF qs, of w1] obtain w' where w': "run_listeners rn ls args w1 = Some (Done w')"
    "frame w1 w'" "\<forall>a. MakeCancel a \<in> set ls \<longrightarrow> \<not> active w' a"
    by blast
  have "\<forall>a. MakeCancel a \<in> set (l # ls) \<longrightarrow> \<not> active w' a"
    using w1(3) w'(2,3) by (auto dest: frame_inactive)
  with w1 w' show ?case by (auto intro: frame_trans)
qed

lemma emit_cancel:
  assumes "cancel_listeners_ok w"
  shows "\<exists>w' t. emit_body rn a ''cancel'' [] w = Some (Done w') \<and> frame w w' \<and>
           trace w' = trace w @ Emitted a ''cancel'' [] # t \<and>
           (MakeCancel a \<in> set (listeners (actions w a) ''cancel'') \<longrightarrow> \<not> active w' a)"
proof -
  let ?w0 = "observe (Emitted a ''cancel'' []) w"
  have "\<forall>l \<in> set (listeners (actions w a) ''cancel''). quiet_listener l"
    using assms by (simp add: cancel_listeners_ok_def)
  from run_quiet_listeners[OF this, of rn "[]" ?w0]
  obtain w' where w': "run_listeners rn (listeners (actions w a) ''cancel'') [] ?w0 = Some (Done w')"
    "frame ?w0 w'" "\<forall>b. MakeCancel b \<in> set (listeners (actions w a) ''cancel'') \<longrightarrow> \<not> active w' b"
    by blast
  from frame_trace[OF w'(2)] obtain t where "trace w' = trace w @ Emitted a ''cancel'' [] # t"
    by (auto simp: observe_def)
  moreover have "frame w w'" using w'(2) by (rule frame_trans[OF frame_observe])
  ultimately show ?thesis using w' by (auto simp: emit_body_def)
qed

lemma cancelled_below_step:
  assumes sub: "\<forall>x \<in> set (subActions (actions w a)). cancelled_below w x t1 w1"
    and own: "Emitted a ''cancel'' [] \<in> set t2"
       "MakeCancel a \<in> set (listeners (actions w a) ''cancel'') \<longrightarrow> \<not> active w2 a"
    and fr: "frame w1 w2"
  shows "cancelled_below w a (t1 @ t2) w2"
  unfolding cancelled_below_def
proof (intro allI impI)
  fix d assume "(a, d) \<in> (owns w)\<^sup>*"
  then consider "d = a" | x where "(a, x) \<in> owns w" "(x, d) \<in> (owns w)\<^sup>*"
    by (auto elim: converse_rtranclE)
  then show "Emitted d ''cancel'' [] \<in> set (t1 @ t2) \<and>
        (MakeCancel d \<in> set (listeners (actions w d) ''cancel'') \<longrightarrow> \<not> active w2 d)"
  proof cases
    case 1
    with own show ?thesis by simp
  next
    case 2
    then have "x \<in> set (subActions (actions w a))" by (simp add: owns_def)
    with sub 2(2) have "Emitted d ''cancel'' [] \<in> set t1"
      "MakeCancel d \<in> set (listeners (actions w d) ''cancel'') \<longrightarrow> \<not> active w1 d"
      by (auto simp: cancelled_below_def)
    with fr show ?thesis by (auto dest: frame_inactive)
  qed
qed

lemma cancelled_below_mono:
  "cancelled_below w x t w1 \<Longrightarrow> frame w1 w2 \<Longrightarrow> cancelled_below w x (t @ t') w2"
  by (auto simp: cancelled_below_def dest: frame_inactive)

lemma cancelled_below_later:
  "cancelled_below w x t w1 \<Longrightarrow> cancelled_below w x (t0 @ t) w1"
  by (auto simp: cancelled_below_def)

lemma cancelled_below_frame:
  "frame w0 w \<Longrightarrow> cancelled_below w x t w1 = cancelled_below w0 x t w1"
  by (simp add: cancelled_below_def frame_owns frame_listeners)

lemma cancel_total:
  "ranked w rk \<Longrightarrow> cancel_listeners_ok w \<Longrightarrow> rk a < n \<Longrightarrow>
   \<exists>w' t. run n (Cancel a) w = Some (Done w') \<and> frame w w' \<and> trace w' = trace w @ t \<and>
          cancelled_below w a t w'"
proof (induction n arbitrary: a w)
  case 0
  then show ?case by simp
next
  case (Suc n)
  have each: "\<forall>x \<in> set xs. rk x < n \<Longrightarrow> ranked v rk \<Longrightarrow> cancel_listeners_ok v \<Longrightarrow>
      \<exists>w' t. cancel_each (run n) xs v = Some (Done w') \<and> frame v w' \<and> trace w' = trace v @ t \<and>
             (\<forall>x \<in> set xs. cancelled_below v x t w')" for xs v
  proof (induction xs arbitrary: v)
    case Nil
    then show ?case by simp
  next
    case (Cons x xs)
    from Suc.IH[of v x] Cons.prems
    obtain w1 t1 where w1: "run n (Cancel x) v = Some (Done w1)" "frame v w1"
      "trace w1 = trace v @ t1" "cancelled_below v x t1 w1"
      by auto
    have "ranked w1 rk" "cancel_listeners_ok w1"
      using w1(2) Cons.prems by (simp_all add: frame_ranked frame_cancel_ok)
    with Cons.IH[of w1] Cons.prems
    obtain w2 t2 where w2: "cancel_each (run n) xs w1 = Some (Done w2)" "frame w1 w2"
      "trace w2 = trace w1 @ t2" "\<forall>y \<in> set xs. cancelled_below w1 y t2 w2"
      by auto
    have "cancelled_below v x (t1 @ t2) w2"
      using w1(4) w2(2) by (rule cancelled_below_mono)
    moreover have "\<forall>y \<in> set xs. cancelled_below v y (t1 @ t2) w2"
      using w2(4) w1(2) by (auto simp: cancelled_below_frame intro: cancelled_below_later)
    ultimately show ?case
      using w1 w2 by (auto intro: frame_trans)
  qed
  have "\<forall>x \<in> set (subActions (actions w a)). rk x < n"
    using Suc.prems by (fastforce simp: ranked_def)
  from each[OF this Suc.prems(1,2)]
  obtain w1 t1 where w1: "cancel_each (run n) (subActions (actions w a)) w = Some (Done w1)"
    "frame w w1" "trace w1 = trace w @ t1"
    "\<forall>x \<in> set (subActions (actions w a)). cancelled_below w x t1 w1"
    by blast
  have "cancel_listeners_ok w1" using w1(2) Suc.prems by (simp add: frame_cancel_ok)
  from emit_cancel[OF this, of "run n" a]
  obtain w2 t2 where w2: "emit_body (run n) a ''cancel'' [] w1 = Some (Done w2)" "frame w1 w2"
    "trace w2 = trace w1 @ Emitted a ''cancel'' [] # t2"
    "MakeCancel a \<in> set (listeners (actions w1 a) ''cancel'') \<longrightarrow> \<not> active w2 a"
    by blast
  have "cancelled_below w a (t1 @ Emitted a ''cancel'' [] # t2) w2"
    by (rule cancelled_below_step[OF w1(4) _ _ w2(2)])
       (use w2(4) frame_listeners[OF w1(2)] in auto)
  then show ?case
    using w1 w2 by (auto simp: run_Cancel cancel_body_def intro: frame_trans)
qed


lemma frame_tree_like: "frame w w' \<Longrightarrow> tree_like w' rk R = tree_like w rk R"
  by (simp add: tree_like_def frame_ranked frame_cancel_ok bubble_ranked_def frame_listeners)

lemma cancel_others_total:
  assumes "\<forall>x \<in> set xs. rk x < n" "ranked v rk" "cancel_listeners_ok v"
  shows "\<exists>w' t. cancel_others (run n) s xs v = Some (Done w') \<and> frame v w' \<and>
           trace w' = trace v @ t \<and> (\<forall>x \<in> set xs. x \<noteq> s \<longrightarrow> Emitted x ''cancel'' [] \<in> set t)"
  using assms
proof (induction xs arbitrary: v)
  case Nil
  then show ?case by simp
next
  case (Cons x xs)
  show ?case
  proof (cases "x = s")
    case True
    with Cons show ?thesis by simp
  next
    case False
    from cancel_total[of v rk x n] Cons.prems
    obtain w1 t1 where w1: "run n (Cancel x) v = Some (Done w1)" "frame v w1"
      "trace w1 = trace v @ t1" "cancelled_below v x t1 w1"
      by auto
    then have x: "Emitted x ''cancel'' [] \<in> set t1" by (simp add: cancelled_below_def)
    have "ranked w1 rk" "cancel_listeners_ok w1"
      using w1(2) Cons.prems by (simp_all add: frame_ranked frame_cancel_ok)
    with Cons.IH[of w1] Cons.prems
    obtain w2 t2 where w2: "cancel_others (run n) s xs w1 = Some (Done w2)" "frame w1 w2"
      "trace w2 = trace w1 @ t2" "\<forall>y \<in> set xs. y \<noteq> s \<longrightarrow> Emitted y ''cancel'' [] \<in> set t2"
      by auto
    show ?thesis
      using False w1 w2 x by (auto intro: frame_trans)
  qed
qed

lemma transition_listener_total: "\<exists>r. transition_listener me ev opts args w = Some r"
  by (simp add: transition_listener_def transitionNow_def Let_def split: option.splits)

lemma queue_counter_total: "\<exists>r. queue_counter q c w = Some r"
  by (simp add: queue_counter_def transitionTo_def transitionNow_def Let_def split: option.splits)

lemma unhandled_guard_total: "\<exists>r. unhandled_guard me args w = Some r"
  by (simp add: unhandled_guard_def Let_def)

lemma emit_total:
  "tree_like w rk R \<Longrightarrow> 2 * R - rk a < n \<Longrightarrow> \<exists>r. run n (Emit a ev args) w = Some r"
proof (induction n arbitrary: a w ev args)
  case 0
  then show ?case by simp
next
  case (Suc n)
  have Rn: "R \<le> n" using Suc.prems by (auto simp: tree_like_def dest: spec[of _ a])
  have ls: "tree_like v rk R \<Longrightarrow>
      \<forall>me sub. BubbleError me sub \<in> set ls \<longrightarrow> rk a < rk me \<Longrightarrow>
      \<exists>r. run_listeners (run n) ls args v = Some r" for ls v
  proof (induction ls arbitrary: v)
    case Nil
    then show ?case by simp
  next
    case (Cons l ls)
    have "\<exists>r. apply_listener (run n) l args v = Some r"
    proof (cases l)
      case (BubbleError me sub)
      with Cons.prems have lt: "rk a < rk me" by simp
      have tl: "ranked v rk" "cancel_listeners_ok v" "\<forall>b. rk b \<le> R"
        using Cons.prems(1) by (simp_all add: tree_like_def)
      have "\<forall>x \<in> set (subActions (actions v me)). rk x < n"
      proof
        fix x assume "x \<in> set (subActions (actions v me))"
        with tl(1) have "rk x < rk me" by (auto simp: ranked_def)
        with tl(3) Rn show "rk x < n" by (meson le_trans less_le_trans)
      qed
      from cancel_others_total[OF this tl(1,2), of sub]
      obtain w1 where w1: "cancel_others (run n) sub (subActions (actions v me)) v = Some (Done w1)"
        "frame v w1" by blast
      have "tree_like w1 rk R" using w1(2) Cons.prems(1) by (simp add: frame_tree_like)
      moreover have "2 * R - rk me < n"
        using lt Suc.prems(2) tl(3)[rule_format, of me] by arith
      ultimately obtain r where "run n (Emit me ''error'' args) w1 = Some r"
        using Suc.IH by blast
      with w1 BubbleError show ?thesis by (simp add: apply_listener_def bubble_error_def)
    qed (simp_all add: apply_listener_def unhandled_guard_total transition_listener_total
          queue_counter_total)
    then obtain r0 where r0: "apply_listener (run n) l args v = Some r0" by blast
    show ?case
    proof (cases r0)
      case (Done w1)
      have "frame v w1" using apply_listener_frame[OF run_framed r0] Done by simp
      then have "tree_like w1 rk R" using Cons.prems(1) by (simp add: frame_tree_like)
      with Cons.IH[of w1] Cons.prems(2) r0 Done show ?thesis by auto
    next
      case (Raised e w1)
      with r0 show ?thesis by simp
    qed
  qed
  have "tree_like (observe (Emitted a ev args) w) rk R"
    using Suc.prems(1) by (simp add: frame_tree_like[OF frame_observe])
  moreover have "\<forall>me sub. BubbleError me sub \<in> set (listeners (actions w a) ev) \<longrightarrow> rk a < rk me"
    using Suc.prems(1) by (auto simp: tree_like_def bubble_ranked_def)
  ultimately show ?case
    using ls by (auto simp: run_Emit emit_body_def Let_def)
qed

lemma run_listeners_append:
  "run_listeners rn (xs @ ys) args v =
     wbind (run_listeners rn xs args v) (run_listeners rn ys args)"
proof (induction xs arbitrary: v)
  case Nil
  then show ?case by simp
next
  case (Cons x xs)
  then show ?case
    by (cases "apply_listener rn x args v") (auto simp: wbind_def split: wres.splits)
qed

lemma addAction_fields:
  "s \<noteq> p \<Longrightarrow> subActions (actions (Action_addAction p s None w) a) =
     (if a = p then subActions (actions w p) @ [s] else subActions (actions w a))"
  "s \<noteq> p \<Longrightarrow> listeners (actions (Action_addAction p s None w) a) ev =
     (if a = s \<and> ev = ''error'' then listeners (actions w s) ''error'' @ [BubbleError p s]
      else listeners (actions w a) ev)"
  "s \<noteq> p \<Longrightarrow> scheduled (Action_addAction p s None w) = scheduled w @ [s]"
  "s \<noteq> p \<Longrightarrow> trace (Action_addAction p s None w) = trace w"
  by (auto simp: Action_addAction_def addListener_def Action_start_def Let_def)

lemma addAction_tree_like:
  assumes "tree_like w rk R" "rk s < rk p"
  shows "tree_like (Action_addAction p s None w) rk R"
proof -
  let ?w1 = "Action_addAction p s None w"
  have sp: "s \<noteq> p" using assms(2) by auto
  note f = addAction_fields[OF sp]
  have "ranked ?w1 rk"
    using assms unfolding tree_like_def ranked_def by (auto simp: f split: if_splits)
  moreover have "bubble_ranked ?w1 rk"
    unfolding bubble_ranked_def
  proof (intro allI impI)
    fix a ev me sub
    assume b: "BubbleError me sub \<in> set (listeners (actions ?w1 a) ev)"
    show "rk a < rk me"
    proof (cases "BubbleError me sub \<in> set (listeners (actions w a) ev)")
      case True
      with assms(1) show ?thesis unfolding tree_like_def bubble_ranked_def by blast
    next
      case False
      with b have "a = s" "me = p" by (auto simp: f split: if_splits)
      with assms(2) show ?thesis by simp
    qed
  qed
  moreover have "cancel_listeners_ok ?w1"
    using assms(1) unfolding tree_like_def cancel_listeners_ok_def by (auto simp: f)
  ultimately show ?thesis using assms(1) by (simp add: tree_like_def)
qed

lemma addListener_fields [simp]:
  "listeners (actions (addListener a ev l w) b) ev' =
     (if b = a \<and> ev' = ev then listeners (actions w a) ev @ [l] else listeners (actions w b) ev')"
  "subActions (actions (addListener a ev l w) b) = subActions (actions w b)"
  "sm_handlers (actions (addListener a ev l w) b) = sm_handlers (actions w b)"
  "sm_state (actions (addListener a ev l w) b) = sm_state (actions w b)"
  "queues (addListener a ev l w) = queues w"
  "counters (addListener a ev l w) = counters w"
  "n_counters (addListener a ev l w) = n_counters w"
  "active (addListener a ev l w) = active w"
  "printed (addListener a ev l w) = printed w"
  "trace (addListener a ev l w) = trace w"
  "scheduled (addListener a ev l w) = scheduled w"
  by (auto simp: addListener_def)

lemma addAction_quiet_fields [simp]:
  "listeners (actions (Action_addAction me a (Some False) w) b) = listeners (actions w b)"
  "sm_handlers (actions (Action_addAction me a (Some False) w) b) = sm_handlers (actions w b)"
  "sm_state (actions (Action_addAction me a (Some False) w) b) = sm_state (actions w b)"
  "queues (Action_addAction me a (Some False) w) = queues w"
  "counters (Action_addAction me a (Some False) w) = counters w"
  "n_counters (Action_addAction me a (Some False) w) = n_counters w"
  "active (Action_addAction me a (Some False) w) = active w"
  "printed (Action_addAction me a (Some False) w) = printed w"
  "trace (Action_addAction me a (Some False) w) = trace w"
  "scheduled (Action_addAction me a (Some False) w) = scheduled w @ [a]"
  by (auto simp: Action_addAction_def Action_start_def Let_def)

lemma wired_by_Nil [simp]: "wired_by me q c [] w w"
  by (simp add: wired_by_def)

lemma wired_by_Cons:
  "wired_by me q c [tr] w w1 \<Longrightarrow> wired_by me q c ts w1 w2 \<Longrightarrow> wired_by me q c (tr # ts) w w2"
  by (auto simp: wired_by_def)

lemma wire_one:
  assumes "routed tr"
  shows "\<exists>w'. wbind (StateMachine_transition me tr w)
           (\<lambda>w1. wbind (count_on q c tr ''success'' w1)
             (\<lambda>w2. wbind (count_on q c tr ''error'' w2) k)) = k w' \<and>
           wired_by me q c [tr] w w'"
proof -
  from assms obtain a where a: "t_action tr = JAction a" by (auto simp: routed_def)
  then have oa: "o_action (mixin tr) = JAction a" by (simp add: mixin_def)
  have te: "truthy (o_error (mixin tr))" using assms by (simp add: routed_def)
  let ?w1 = "Action_addAction me a (Some False)
      (addListener a ''error'' (TransitionListener me ''error'' (mixin tr))
        (addListener a ''success'' (TransitionListener me ''success'' (mixin tr)) w))"
  let ?w2 = "addListener a ''success'' (QueueCounter q c) ?w1"
  let ?w3 = "if truthy (declared tr ''error'') then addListener a ''error'' (QueueCounter q c) ?w2
             else ?w2"
  have t: "StateMachine_transition me tr w = Some (Done ?w1)"
    using oa te by (simp add: StateMachine_transition_def Let_def)
  have c1: "count_on q c tr ''success'' ?w1 = Some (Done ?w2)"
    using a by (simp add: count_on_def)
  have c2: "count_on q c tr ''error'' ?w2 = Some (Done ?w3)"
    using a by (simp add: count_on_def)
  have "wired_by me q c [tr] w ?w3"
    using a by (auto simp: wired_by_def added_def spec_action_def)
  with t c1 c2 show ?thesis by (intro exI[of _ ?w3]) simp
qed

lemma start_each_wires:
  assumes "\<forall>tr \<in> set ts. routed tr" "q_stateMachine (queues w q) = me"
  shows "\<exists>w'. start_each q c ts w = Some (Done w') \<and> wired_by me q c ts w w'"
  using assms
proof (induction ts arbitrary: w)
  case Nil
  then show ?case by simp
next
  case (Cons tr ts)
  then have "routed tr" by simp
  from wire_one[OF this, of me w q c "start_each q c ts"]
  obtain w1 where w1: "start_each q c (tr # ts) w = start_each q c ts w1"
    "wired_by me q c [tr] w w1"
    using Cons.prems(2) by auto
  then have "q_stateMachine (queues w1 q) = me" using Cons.prems(2) by (simp add: wired_by_def)
  with Cons.IH[of w1] Cons.prems(1) obtain w2 where
    "start_each q c ts w1 = Some (Done w2)" "wired_by me q c ts w1 w2" by auto
  with w1 show ?case by (auto intro: wired_by_Cons)
qed

lemma joins_simps [simp]:
  "joins me key [] = 0"
  "joins me key (t1 @ t2) = joins me key t1 + joins me key t2"
  "joins me key (Heard name args # t) = joins me key t"
  "joins me key (Emitted a ev args # t) = joins me key t"
  "joins me key (Handled m k h args # t) = (if m = me \<and> k = key then 1 else 0) + joins me key t"
  by (simp_all add: joins_def)

lemma observe_fields [simp]:
  "trace (observe ob w) = trace w @ [ob]"
  "counters (observe ob w) = counters w"
  "queues (observe ob w) = queues w"
  "actions (observe ob w) = actions w"
  by (simp_all add: observe_def)

lemma moved_refl [simp]: "moved me fin c w w 0 0"
  by (simp add: moved_def)

lemma moved_trans:
  "moved me fin c w w1 dk1 j1 \<Longrightarrow> moved me fin c w1 w2 dk2 j2 \<Longrightarrow>
   moved me fin c w w2 (dk1 + dk2) (j1 + j2)"
  unfolding moved_def by (auto intro: frame_trans)

lemma moved_observe_emitted [simp]: "moved me fin c w (observe (Emitted a ev args) w) 0 0"
  by (simp add: moved_def)

lemma run_users:
  assumes "\<forall>l \<in> set ls. user_listener l"
  shows "\<exists>w'. run_listeners rn ls args w = Some (Done w') \<and> moved me fin c w w' 0 0"
  using assms
proof (induction ls arbitrary: w)
  case Nil
  then show ?case by simp
next
  case (Cons l ls)
  then obtain name where l: "l = UserListener name" by (cases l) (auto simp: user_listener_def)
  let ?w1 = "observe (Heard name args) w"
  have m1: "moved me fin c w ?w1 0 0" by (simp add: moved_def)
  from Cons.IH[of ?w1] Cons.prems obtain w' where
    "run_listeners rn ls args ?w1 = Some (Done w')" "moved me fin c ?w1 w' 0 0" by auto
  with l moved_trans[OF m1 this(2)] show ?case by (auto simp: apply_listener_def)
qed

lemma run_guard_users:
  assumes "\<forall>l \<in> set ls. guard_or_user s l" "length (listeners (actions w s) ''error'') \<noteq> 1"
  shows "\<exists>w'. run_listeners rn ls args w = Some (Done w') \<and> moved me fin c w w' 0 0"
  using assms
proof (induction ls arbitrary: w)
  case Nil
  then show ?case by simp
next
  case (Cons l ls)
  then have "guard_or_user s l" by simp
  with Cons.prems(2) obtain w1 where w1: "apply_listener rn l args w = Some (Done w1)"
    "moved me fin c w w1 0 0"
    by (cases l)
       (auto simp: guard_or_user_def apply_listener_def unhandled_guard_def moved_def)
  then have "frame w w1" by (simp add: moved_def)
  then have "length (listeners (actions w1 s) ''error'') \<noteq> 1"
    using Cons.prems(2) by (simp add: frame_listeners)
  with Cons.IH[of w1] Cons.prems(1) obtain w' where
    "run_listeners rn ls args w1 = Some (Done w')" "moved me fin c w1 w' 0 0" by auto
  with w1 moved_trans[OF w1(2) this(2)] show ?case by auto
qed

lemma transition_listener_moves:
  assumes "truthy target" "target = (if ev = ''success'' then o_success opts else o_error opts)"
    "sm_handlers (actions w me) (to_string target) \<noteq> None" "to_string target \<noteq> fin"
  shows "\<exists>w'. transition_listener me ev opts args w = Some (Done w') \<and> moved me fin c w w' 0 0"
proof -
  from assms(3) obtain h where h: "sm_handlers (actions w me) (to_string target) = Some h" by auto
  let ?w1 = "set_state me target w"
  have s: "sm_state (actions ?w1 me) = target" "sm_handlers (actions ?w1 me) = sm_handlers (actions w me)"
    by (simp_all add: set_state_def)
  have "frame w (observe ob ?w1)" for ob
    by (rule frame_trans[OF frame_set_state frame_observe])
  moreover have "counters (observe ob ?w1) = counters w" "trace (observe ob ?w1) = trace w @ [ob]" for ob
    by (simp_all add: set_state_def)
  ultimately show ?thesis
    using assms h s
    by (auto simp: transition_listener_def transitionNow_def Let_def moved_def)
qed

lemma queue_counter_moves:
  assumes "sm_handlers (actions w (q_stateMachine (queues w q)))
             (to_string (q_finalState (queues w q))) \<noteq> None"
    "q_stateMachine (queues w q) = me" "to_string (q_finalState (queues w q)) = fin"
    "length (q_transitions (queues w q)) = K"
  shows "\<exists>w'. queue_counter q c w = Some (Done w') \<and>
           moved me fin c w w' 1 (if counters w c + 1 = K then 1 else 0)"
proof -
  from assms(1) obtain h where "sm_handlers (actions w (q_stateMachine (queues w q)))
             (to_string (q_finalState (queues w q))) = Some h" by blast
  then have h: "sm_handlers (actions w me) fin = Some h" using assms(2,3) by simp
  let ?w1 = "w\<lparr>counters := (counters w)(c := counters w c + 1)\<rparr>"
  let ?w2 = "set_state me (q_finalState (queues w q)) ?w1"
  have f2: "frame w (observe ob ?w2)" for ob
    by (rule frame_trans[OF frame_counter frame_trans[OF frame_set_state frame_observe]])
  have o2: "counters (observe ob ?w2) c = counters w c + 1" "trace (observe ob ?w2) = trace w @ [ob]" for ob
    by (simp_all add: set_state_def)
  show ?thesis
  proof (cases "counters w c + 1 = K")
    case True
    have "queue_counter q c w = Some (Done (observe (Handled me fin h []) ?w2))"
      using True assms(2,3,4) h
      by (simp add: queue_counter_def Let_def transitionTo_def transitionNow_def set_state_def)
    with True f2 o2 show ?thesis by (auto simp: moved_def)
  next
    case False
    then have "queue_counter q c w = Some (Done ?w1)"
      using assms(4) by (simp add: queue_counter_def Let_def)
    with False show ?thesis by (auto simp: moved_def)
  qed
qed


lemma wired_queue_frame: "wired_queue w0 q c w \<Longrightarrow> frame w w' \<Longrightarrow> wired_queue w0 q c w'"
  by (simp add: wired_queue_def frame_def Let_def)

lemma concat_distinct:
  "distinct (map f ts) \<Longrightarrow> i < length ts \<Longrightarrow>
   concat (map (\<lambda>tr. if f tr = f (ts ! i) then g tr else []) ts) = g (ts ! i)"
proof (induction ts arbitrary: i)
  case Nil
  then show ?case by simp
next
  case (Cons t ts)
  show ?case
  proof (cases i)
    case 0
    have "concat (map (\<lambda>tr. if f tr = f t then g tr else []) ts) = []"
      using Cons.prems(1) by (auto simp: image_iff)
    with 0 show ?thesis by simp
  next
    case (Suc j)
    with Cons.prems have "f t \<noteq> f (ts ! j)" by auto
    with Suc Cons show ?thesis by simp
  qed
qed

lemma start_wires:
  assumes "queue_ready w q"
  shows "\<exists>w1 t. TransitionQueue_start q w = Some (Done w1) \<and>
           wired_queue w q (n_counters w) w1 \<and> counters w1 (n_counters w) = 0 \<and>
           trace w1 = trace w @ t \<and>
           joins (q_stateMachine (queues w q)) (to_string (q_finalState (queues w q))) t =
             (if length (q_transitions (queues w q)) = 0 then 1 else 0) \<and>
           scheduled w1 = scheduled w @ map spec_action (q_transitions (queues w q))"
proof -
  let ?me = "q_stateMachine (queues w q)"
  let ?ts = "q_transitions (queues w q)"
  let ?fin = "to_string (q_finalState (queues w q))"
  let ?c = "n_counters w"
  let ?w1 = "w\<lparr>queues := (queues w)(q := (queues w q)\<lparr>q_started := True\<rparr>)\<rparr>"
  let ?w2 = "?w1\<lparr>counters := (counters ?w1)(?c := 0), n_counters := Suc ?c\<rparr>"
  from assms obtain h where h: "sm_handlers (actions w ?me) ?fin = Some h"
    by (auto simp: queue_ready_def Let_def)
  have r: "\<forall>tr \<in> set ?ts. routed tr" and d: "distinct (map spec_action ?ts)"
    using assms by (auto simp: queue_ready_def Let_def)
  show ?thesis
  proof (cases "length ?ts = 0")
    case True
    let ?w3 = "observe (Handled ?me ?fin h []) (set_state ?me (q_finalState (queues w q)) ?w2)"
    have "TransitionQueue_start q w = Some (Done ?w3)"
      using True h
      by (simp add: TransitionQueue_start_def Let_def transitionTo_def transitionNow_def set_state_def)
    moreover have "wired_queue w q ?c ?w3"
      using True by (simp add: wired_queue_def Let_def set_state_def)
    moreover have "counters ?w3 ?c = 0" "trace ?w3 = trace w @ [Handled ?me ?fin h []]"
      "scheduled ?w3 = scheduled w"
      by (simp_all add: set_state_def observe_def)
    ultimately show ?thesis using True by simp
  next
    case False
    have "q_stateMachine (queues ?w2 q) = ?me" by simp
    from start_each_wires[OF r this, of ?c]
    obtain w3 where w3: "start_each q ?c ?ts ?w2 = Some (Done w3)" "wired_by ?me q ?c ?ts ?w2 w3"
      by blast
    have "TransitionQueue_start q w = Some (Done w3)"
      using False w3(1) by (simp add: TransitionQueue_start_def Let_def)
    moreover have "wired_queue w q ?c w3"
      using w3(2) concat_distinct[OF d, of _ "\<lambda>tr. added ?me q ?c tr ev" for ev]
      by (simp add: wired_queue_def wired_by_def Let_def)
    moreover have "counters w3 ?c = 0" "trace w3 = trace w" "scheduled w3 = scheduled w @ map spec_action ?ts"
      using w3(2) by (simp_all add: wired_by_def)
    ultimately show ?thesis using False by simp
  qed
qed

lemma deliver_moves:
  assumes rd: "queue_ready w0 q" and wq: "wired_queue w0 q c w"
    and i: "signal_index sg < length (q_transitions (queues w0 q))"
  shows "\<exists>w'. deliver (Suc n) (q_transitions (queues w0 q)) sg w = Some (Done w') \<and>
           moved (q_stateMachine (queues w0 q)) (to_string (q_finalState (queues w0 q))) c w w'
             (if counted (q_transitions (queues w0 q)) sg then 1 else 0)
             (if counted (q_transitions (queues w0 q)) sg \<and>
                 counters w c + 1 = length (q_transitions (queues w0 q)) then 1 else 0)"
proof -
  let ?me = "q_stateMachine (queues w0 q)"
  let ?ts = "q_transitions (queues w0 q)"
  let ?fin = "to_string (q_finalState (queues w0 q))"
  let ?K = "length ?ts"
  let ?H = "sm_handlers (actions w0 ?me)"
  define j where "j = signal_index sg"
  define tr where "tr = ?ts ! j"
  define a where "a = spec_action tr"
  have j: "j < ?K" using i j_def by simp
  then have trin: "tr \<in> set ?ts" by (simp add: tr_def)
  have Hfin: "?H ?fin \<noteq> None" using rd by (simp add: queue_ready_def Let_def)
  have tr: "routed tr" "?H (to_string (o_success (mixin tr))) \<noteq> None"
    "?H (to_string (o_error (mixin tr))) \<noteq> None"
    "to_string (o_success (mixin tr)) \<noteq> ?fin" "to_string (o_error (mixin tr)) \<noteq> ?fin"
    "\<forall>l \<in> set (listeners (actions w0 a) ''success''). user_listener l"
    "\<forall>l \<in> set (listeners (actions w0 a) ''error''). guard_or_user a l"
    using rd trin unfolding queue_ready_def Let_def a_def by blast+
  have ls: "listeners (actions w a) ev = listeners (actions w0 a) ev @ added ?me q c tr ev" for ev
    using wq j by (simp add: wired_queue_def Let_def a_def tr_def)
  note mt = moved_trans[where me = ?me and fin = ?fin and c = c]
  \<comment> \<open>facts that hold in every later world\<close>
  have later: "sm_handlers (actions v ?me) = ?H \<and> q_stateMachine (queues v q) = ?me \<and>
      q_transitions (queues v q) = ?ts \<and> q_finalState (queues v q) = q_finalState (queues w0 q) \<and>
      counters v c = counters w c + dk"
    if "moved ?me ?fin c w v dk jj" for v dk jj
    using that wired_queue_frame[OF wq, of v] by (simp add: moved_def wired_queue_def Let_def)
  have tl: "\<exists>v'. transition_listener ?me ev (mixin tr) args v = Some (Done v') \<and>
      moved ?me ?fin c v v' 0 0"
    if "moved ?me ?fin c w v dk jj" "ev = ''success'' \<or> ev = ''error''" for v dk jj ev args
  proof (rule transition_listener_moves[OF _ refl])
    show "truthy (if ev = ''success'' then o_success (mixin tr) else o_error (mixin tr))"
      using tr(1) by (simp add: routed_def)
    show "sm_handlers (actions v ?me)
        (to_string (if ev = ''success'' then o_success (mixin tr) else o_error (mixin tr))) \<noteq> None"
      using tr(2,3) later[OF that(1)] by simp
    show "to_string (if ev = ''success'' then o_success (mixin tr) else o_error (mixin tr)) \<noteq> ?fin"
      using tr(4,5) by simp
  qed
  have qc: "\<exists>v'. queue_counter q c v = Some (Done v') \<and>
      moved ?me ?fin c v v' 1 (if counters w c + 1 = ?K then 1 else 0)"
    if "moved ?me ?fin c w v 0 jj" for v jj
  proof -
    from later[OF that] have l: "sm_handlers (actions v ?me) = ?H" "q_stateMachine (queues v q) = ?me"
      "q_transitions (queues v q) = ?ts" "q_finalState (queues v q) = q_finalState (queues w0 q)"
      "counters v c = counters w c" by simp_all
    have "sm_handlers (actions v (q_stateMachine (queues v q)))
             (to_string (q_finalState (queues v q))) \<noteq> None"
      using Hfin l(1,2,4) by simp
    from queue_counter_moves[OF this, of ?me ?fin ?K c] l show ?thesis by simp
  qed
  show ?thesis
  proof (cases sg)
    case (Succeeds i' args)
    then have ai: "spec_action (?ts ! i') = a"
      by (simp add: a_def tr_def j_def signal_index_def)
    have sg: "deliver (Suc n) ?ts sg w =
        run_listeners (run n) (listeners (actions w0 a) ''success'' @
          [TransitionListener ?me ''success'' (mixin tr), QueueCounter q c]) args
          (observe (Emitted a ''success'' args) w)"
      using Succeeds
      by (simp add: deliver_def Action_emitSuccess_def run_Emit emit_body_def ai ls added_def)
    let ?v0 = "observe (Emitted a ''success'' args) w"
    have m0: "moved ?me ?fin c w ?v0 0 0" by simp
    from run_users[OF tr(6), of "run n" args ?v0 ?me ?fin c]
    obtain v1 where v1: "run_listeners (run n) (listeners (actions w0 a) ''success'') args ?v0
        = Some (Done v1)" "moved ?me ?fin c ?v0 v1 0 0" by blast
    note m1 = mt[OF m0 v1(2), simplified]
    from tl[OF m1, of "''success''" args]
    obtain v2 where v2: "transition_listener ?me ''success'' (mixin tr) args v1 = Some (Done v2)"
      "moved ?me ?fin c v1 v2 0 0" by auto
    note m2 = mt[OF m1 v2(2), simplified]
    from qc[OF m2]
    obtain v3 where v3: "queue_counter q c v2 = Some (Done v3)"
      "moved ?me ?fin c v2 v3 1 (if counters w c + 1 = ?K then 1 else 0)" by blast
    note m3 = mt[OF m2 v3(2), simplified]
    have "deliver (Suc n) ?ts sg w = Some (Done v3)"
      using v1(1) v2(1) v3(1) by (simp add: sg run_listeners_append apply_listener_def)
    with m3 Succeeds show ?thesis by (auto simp: counted_def)
  next
    case (Fails i' args)
    let ?tail = "TransitionListener ?me ''error'' (mixin tr) #
        (if truthy (declared tr ''error'') then [QueueCounter q c] else [])"
    from Fails have ai: "spec_action (?ts ! i') = a" and ti: "?ts ! i' = tr"
      by (simp_all add: a_def tr_def j_def signal_index_def)
    have sg: "deliver (Suc n) ?ts sg w =
        run_listeners (run n) (listeners (actions w0 a) ''error'' @ ?tail) args
          (observe (Emitted a ''error'' args) w)"
      using Fails
      by (simp add: deliver_def Action_emitError_def run_Emit emit_body_def ai ls added_def)
    let ?v0 = "observe (Emitted a ''error'' args) w"
    have m0: "moved ?me ?fin c w ?v0 0 0" by simp
    have "\<exists>v1. run_listeners (run n) (listeners (actions w0 a) ''error'') args ?v0 = Some (Done v1)
        \<and> moved ?me ?fin c ?v0 v1 0 0"
    proof (cases "listeners (actions w0 a) ''error'' = []")
      case True
      then show ?thesis by simp
    next
      case False
      then have "length (listeners (actions ?v0 a) ''error'') \<noteq> 1"
        by (simp add: ls added_def)
      from run_guard_users[OF tr(7) this] show ?thesis .
    qed
    then obtain v1 where v1: "run_listeners (run n) (listeners (actions w0 a) ''error'') args ?v0
        = Some (Done v1)" "moved ?me ?fin c ?v0 v1 0 0" by blast
    note m1 = mt[OF m0 v1(2), simplified]
    from tl[OF m1, of "''error''" args]
    obtain v2 where v2: "transition_listener ?me ''error'' (mixin tr) args v1 = Some (Done v2)"
      "moved ?me ?fin c v1 v2 0 0" by auto
    note m2 = mt[OF m1 v2(2), simplified]
    show ?thesis
    proof (cases "truthy (declared tr ''error'')")
      case True
      from qc[OF m2]
      obtain v3 where v3: "queue_counter q c v2 = Some (Done v3)"
        "moved ?me ?fin c v2 v3 1 (if counters w c + 1 = ?K then 1 else 0)" by blast
      note m3 = mt[OF m2 v3(2), simplified]
      have "deliver (Suc n) ?ts sg w = Some (Done v3)"
        using True v1(1) v2(1) v3(1) by (simp add: sg run_listeners_append apply_listener_def)
      with m3 Fails True show ?thesis
        by (auto simp: counted_def ti)
    next
      case False
      have "deliver (Suc n) ?ts sg w = Some (Done v2)"
        using False v1(1) v2(1) by (simp add: sg run_listeners_append apply_listener_def)
      with m2 Fails False show ?thesis
        by (auto simp: counted_def ti)
    qed
  qed
qed

lemma deliver_all_moves:
  assumes rd: "queue_ready w0 q"
  shows "wired_queue w0 q c w \<Longrightarrow>
         \<forall>sg \<in> set sgs. signal_index sg < length (q_transitions (queues w0 q)) \<Longrightarrow>
         \<exists>w'. deliver_all (Suc n) (q_transitions (queues w0 q)) sgs w = Some (Done w') \<and>
           moved (q_stateMachine (queues w0 q)) (to_string (q_finalState (queues w0 q))) c w w'
             (length (filter (counted (q_transitions (queues w0 q))) sgs))
             (if counters w c < length (q_transitions (queues w0 q)) \<and>
                 length (q_transitions (queues w0 q)) \<le>
                   counters w c + length (filter (counted (q_transitions (queues w0 q))) sgs)
              then 1 else 0)"
proof (induction sgs arbitrary: w)
  case Nil
  then show ?case by auto
next
  case (Cons sg sgs)
  let ?me = "q_stateMachine (queues w0 q)"
  let ?ts = "q_transitions (queues w0 q)"
  let ?fin = "to_string (q_finalState (queues w0 q))"
  let ?K = "length ?ts"
  let ?d = "if counted ?ts sg then 1 else 0 :: nat"
  from deliver_moves[OF rd Cons.prems(1), of sg n] Cons.prems(2)
  obtain w1 where w1: "deliver (Suc n) ?ts sg w = Some (Done w1)"
    "moved ?me ?fin c w w1 ?d (if counted ?ts sg \<and> counters w c + 1 = ?K then 1 else 0)"
    by auto
  then have wq1: "wired_queue w0 q c w1" and c1: "counters w1 c = counters w c + ?d"
    using wired_queue_frame[OF Cons.prems(1), of w1] by (simp_all add: moved_def)
  from Cons.IH[OF wq1] Cons.prems(2)
  obtain w2 where w2: "deliver_all (Suc n) ?ts sgs w1 = Some (Done w2)"
    "moved ?me ?fin c w1 w2 (length (filter (counted ?ts) sgs))
       (if counters w1 c < ?K \<and> ?K \<le> counters w1 c + length (filter (counted ?ts) sgs)
        then 1 else 0)"
    by auto
  have "deliver_all (Suc n) ?ts (sg # sgs) w = Some (Done w2)" using w1(1) w2(1) by simp
  moreover have "moved ?me ?fin c w w2 (length (filter (counted ?ts) (sg # sgs)))
       (if counters w c < ?K \<and> ?K \<le> counters w c + length (filter (counted ?ts) (sg # sgs))
        then 1 else 0)"
    using moved_trans[OF w1(2) w2(2)] c1 by (auto split: if_splits)
  ultimately show ?case by blast
qed

text \<open>What the listeners of the constructor and of the user leave in the trace.\<close>

lemma run_guard_user_heard:
  assumes "\<forall>l \<in> set ls. guard_or_user s l" "length (listeners (actions v s) ''error'') \<noteq> 1"
  shows "\<exists>w' t. run_listeners rn ls args v = Some (Done w') \<and> frame v w' \<and>
           trace w' = trace v @ t \<and> heard_only t \<and>
           (\<forall>b. sm_state (actions w' b) = sm_state (actions v b))"
  using assms
proof (induction ls arbitrary: v)
  case Nil
  then show ?case by (simp add: heard_only_def)
next
  case (Cons l ls)
  then have "guard_or_user s l" by simp
  with Cons.prems(2) obtain w1 t1 where w1: "apply_listener rn l args v = Some (Done w1)" "frame v w1"
    "trace w1 = trace v @ t1" "heard_only t1" "\<forall>b. sm_state (actions w1 b) = sm_state (actions v b)"
    by (cases l) (auto simp: guard_or_user_def apply_listener_def unhandled_guard_def heard_only_def)
  then have "length (listeners (actions w1 s) ''error'') \<noteq> 1"
    using Cons.prems(2) by (simp add: frame_listeners)
  with Cons.IH[of w1] Cons.prems(1) obtain w' t2 where
    "run_listeners rn ls args w1 = Some (Done w')" "frame w1 w'" "trace w' = trace w1 @ t2"
    "heard_only t2" "\<forall>b. sm_state (actions w' b) = sm_state (actions w1 b)" by auto
  with w1 show ?case by (auto intro: frame_trans simp: heard_only_def)
qed

lemma cancel_only_below:
  "ranked w rk \<Longrightarrow> cancel_listeners_ok w \<Longrightarrow> run n (Cancel a) w = Some (Done w') \<Longrightarrow>
   trace w' = trace w @ t \<Longrightarrow> Emitted d ev args \<in> set t \<Longrightarrow> (a, d) \<in> (owns w)\<^sup>*"
proof (induction n arbitrary: a w w' t)
  case 0
  then show ?case by simp
next
  case (Suc n)
  have each: "ranked v rk \<Longrightarrow> cancel_listeners_ok v \<Longrightarrow> owns v = owns w \<Longrightarrow>
      cancel_each (run n) xs v = Some (Done v') \<Longrightarrow> trace v' = trace v @ u \<Longrightarrow>
      Emitted d ev args \<in> set u \<Longrightarrow> \<exists>x \<in> set xs. (x, d) \<in> (owns w)\<^sup>*" for xs v v' u
  proof (induction xs arbitrary: v u)
    case Nil
    then show ?case by simp
  next
    case (Cons x xs)
    from Cons.prems(4) obtain v1 where v1: "run n (Cancel x) v = Some (Done v1)"
      "cancel_each (run n) xs v1 = Some (Done v')"
      by (auto simp: wbind_def split: option.splits wres.splits)
    have f1: "frame v v1" using run_framed v1(1) by (fastforce simp: framed_def)
    have f2: "frame v1 v'" using cancel_each_frame[OF run_framed v1(2)] by simp
    from frame_trace[OF f1] obtain u1 where u1: "trace v1 = trace v @ u1" by blast
    from frame_trace[OF f2] obtain u2 where u2: "trace v' = trace v1 @ u2" by blast
    have u: "u = u1 @ u2" using Cons.prems(5) u1 u2 by simp
    show ?case
    proof (cases "Emitted d ev args \<in> set u1")
      case True
      from Suc.IH[OF Cons.prems(1,2) v1(1) u1 True] Cons.prems(3) show ?thesis by simp
    next
      case False
      then have "Emitted d ev args \<in> set u2" using Cons.prems(6) u by simp
      moreover have "ranked v1 rk" "cancel_listeners_ok v1" "owns v1 = owns w"
        using f1 Cons.prems(1,2,3) by (simp_all add: frame_ranked frame_cancel_ok frame_owns)
      ultimately show ?thesis using Cons.IH[OF _ _ _ v1(2) u2] by auto
    qed
  qed
  from Suc.prems(3) obtain w1 where w1:
    "cancel_each (run n) (subActions (actions w a)) w = Some (Done w1)"
    "emit_body (run n) a ''cancel'' [] w1 = Some (Done w')"
    by (auto simp: run_Cancel cancel_body_def wbind_def split: option.splits wres.splits)
  have f1: "frame w w1" using cancel_each_frame[OF run_framed w1(1)] by simp
  from frame_trace[OF f1] obtain t1 where t1: "trace w1 = trace w @ t1" by blast
  have ok1: "cancel_listeners_ok w1" using f1 Suc.prems(2) by (simp add: frame_cancel_ok)
  let ?w0 = "observe (Emitted a ''cancel'' []) w1"
  have q: "\<forall>l \<in> set (listeners (actions w1 a) ''cancel''). quiet_listener l"
    using ok1 by (simp add: cancel_listeners_ok_def)
  have quiet: "\<forall>l \<in> set ls. quiet_listener l \<Longrightarrow> run_listeners rn ls as v = Some (Done v') \<Longrightarrow>
      \<exists>u. trace v' = trace v @ u \<and> heard_only u" for ls rn as v v'
  proof (induction ls arbitrary: v)
    case Nil
    then show ?case by (simp add: heard_only_def)
  next
    case (Cons l ls)
    then have "quiet_listener l" by simp
    then obtain v1 u1 where v1: "apply_listener rn l as v = Some (Done v1)"
      "trace v1 = trace v @ u1" "heard_only u1"
      by (cases l) (auto simp: quiet_listener_def apply_listener_def heard_only_def)
    with Cons.prems(2) have "run_listeners rn ls as v1 = Some (Done v')" by simp
    from Cons.IH[OF _ this] Cons.prems(1) obtain u2 where "trace v' = trace v1 @ u2" "heard_only u2"
      by auto
    with v1 show ?case by (auto simp: heard_only_def)
  qed
  have "run_listeners (run n) (listeners (actions w1 a) ''cancel'') [] ?w0 = Some (Done w')"
    using w1(2) by (simp add: emit_body_def)
  from quiet[OF q this] obtain u where u: "trace w' = trace ?w0 @ u" "heard_only u"
    by blast
  have t: "t = t1 @ Emitted a ''cancel'' [] # u"
    using Suc.prems(4) u(1) t1 by (simp add: observe_def)
  from Suc.prems(5) t consider "Emitted d ev args \<in> set t1" | "d = a" | "Emitted d ev args \<in> set u"
    by auto
  then show ?case
  proof cases
    case 1
    from each[OF Suc.prems(1,2) refl w1(1) t1 1]
    obtain x where "x \<in> set (subActions (actions w a))" "(x, d) \<in> (owns w)\<^sup>*" by blast
    then show ?thesis by (auto simp: owns_def intro: converse_rtrancl_into_rtrancl)
  next
    case 2
    then show ?thesis by simp
  next
    case 3
    with u(2) show ?thesis by (auto simp: heard_only_def)
  qed
qed


lemma cancel_others_only:
  assumes "ranked v rk" "cancel_listeners_ok v"
    and "cancel_others (run n) s xs v = Some (Done v')" "trace v' = trace v @ u"
    and "Emitted d ev args \<in> set u"
  shows "\<exists>x \<in> set xs. x \<noteq> s \<and> (x, d) \<in> (owns v)\<^sup>*"
  using assms
proof (induction xs arbitrary: v u)
  case Nil
  then show ?case by simp
next
  case (Cons x xs)
  show ?case
  proof (cases "x = s")
    case True
    with Cons.prems(3) have "cancel_others (run n) s xs v = Some (Done v')" by simp
    from Cons.IH[OF Cons.prems(1,2) this Cons.prems(4,5)] show ?thesis by auto
  next
    case False
    with Cons.prems(3) obtain v1 where v1: "run n (Cancel x) v = Some (Done v1)"
      "cancel_others (run n) s xs v1 = Some (Done v')"
      by (auto simp: wbind_def split: option.splits wres.splits)
    have f1: "frame v v1" using run_framed v1(1) by (fastforce simp: framed_def)
    have f2: "frame v1 v'" using cancel_others_frame[OF run_framed v1(2)] by simp
    from frame_trace[OF f1] obtain u1 where u1: "trace v1 = trace v @ u1" by blast
    from frame_trace[OF f2] obtain u2 where u2: "trace v' = trace v1 @ u2" by blast
    have u: "u = u1 @ u2" using Cons.prems(4) u1 u2 by simp
    show ?thesis
    proof (cases "Emitted d ev args \<in> set u1")
      case True
      from cancel_only_below[OF Cons.prems(1,2) v1(1) u1 True] False show ?thesis by simp
    next
      case F: False
      then have "Emitted d ev args \<in> set u2" using Cons.prems(5) u by simp
      moreover have "ranked v1 rk" "cancel_listeners_ok v1" "owns v1 = owns v"
        using f1 Cons.prems(1,2) by (simp_all add: frame_ranked frame_cancel_ok frame_owns)
      ultimately show ?thesis using Cons.IH[OF _ _ v1(2) u2] by auto
    qed
  qed
qed

text \<open>The failure of a sub-action that bubbles.\<close>

lemma bubbling_child_fails:
  assumes tl: "tree_like w rk R"
    and ls: "listeners (actions w s) ''error'' = L @ [BubbleError p s]"
    and gu: "\<forall>l \<in> set L. guard_or_user s l"
    and n: "2 * R - rk s < n"
  shows "\<exists>r t0 t1 t2. Action_emitError n s args w = Some r \<and>
           trace (world_of r) =
             trace w @ Emitted s ''error'' args # (t0 @ t1) @ Emitted p ''error'' args # t2 \<and>
           heard_only t0 \<and>
           (\<forall>x \<in> set (subActions (actions w p)). x \<noteq> s \<longrightarrow> Emitted x ''cancel'' [] \<in> set t1) \<and>
           (\<forall>d ev xs. Emitted d ev xs \<in> set t1 \<longrightarrow>
              (\<exists>x \<in> set (subActions (actions w p)). x \<noteq> s \<and> (x, d) \<in> (owns w)\<^sup>*))"
proof -
  have sp: "rk s < rk p"
    using tl ls unfolding tree_like_def bubble_ranked_def by (metis in_set_conv_decomp)
  have bound: "\<forall>a. rk a \<le> R" using tl by (simp add: tree_like_def)
  obtain n1 where n1: "n = Suc n1" using n by (cases n) auto
  have Rn: "R \<le> n1" using n n1 bound[rule_format, of s] by arith
  have pn: "2 * R - rk p < n1" using n n1 sp bound[rule_format, of p] by arith
  obtain n2 where n2: "n1 = Suc n2" using pn by (cases n1) auto
  let ?w2 = "observe (Emitted s ''error'' args) w"
  have "length (listeners (actions ?w2 s) ''error'') \<noteq> 1 \<or> L = []"
    using ls by (cases L) simp_all
  then have "\<exists>v t0. run_listeners (run n1) L args ?w2 = Some (Done v) \<and> frame ?w2 v \<and>
      trace v = trace ?w2 @ t0 \<and> heard_only t0"
  proof
    assume "length (listeners (actions ?w2 s) ''error'') \<noteq> 1"
    from run_guard_user_heard[OF gu this] show ?thesis by blast
  next
    assume "L = []"
    then show ?thesis by (simp add: heard_only_def)
  qed
  then obtain v t0 where v: "run_listeners (run n1) L args ?w2 = Some (Done v)" "frame ?w2 v"
    "trace v = trace ?w2 @ t0" "heard_only t0"
    by blast
  have fv: "frame w v" using v(2) by (rule frame_trans[OF frame_observe])
  have tlv: "tree_like v rk R" using fv tl by (simp add: frame_tree_like)
  have subs: "subActions (actions v p) = subActions (actions w p)"
    using fv by (simp add: frame_def)
  have ow: "owns v = owns w" using fv by (rule frame_owns)
  have "\<forall>x \<in> set (subActions (actions v p)). rk x < n1"
  proof
    fix x assume "x \<in> set (subActions (actions v p))"
    with tlv have "rk x < rk p" by (auto simp: tree_like_def ranked_def)
    with bound[rule_format, of p] Rn show "rk x < n1" by arith
  qed
  from cancel_others_total[OF this, of v s] tlv
  obtain w3 t where w3: "cancel_others (run n1) s (subActions (actions v p)) v = Some (Done w3)"
    "frame v w3" "trace w3 = trace v @ t"
    "\<forall>x \<in> set (subActions (actions v p)). x \<noteq> s \<longrightarrow> Emitted x ''cancel'' [] \<in> set t"
    by (auto simp: tree_like_def)
  have only: "\<exists>x \<in> set (subActions (actions w p)). x \<noteq> s \<and> (x, d) \<in> (owns w)\<^sup>*"
    if "Emitted d ev xs \<in> set t" for d ev xs
    using cancel_others_only[OF _ _ w3(1,3) that] tlv ow subs by (auto simp: tree_like_def)
  have "tree_like w3 rk R" using w3(2) tlv by (simp add: frame_tree_like)
  from emit_total[OF this pn, of "''error''" args]
  obtain r where r: "run n1 (Emit p ''error'' args) w3 = Some r" by blast
  then have "emit_body (run n2) p ''error'' args w3 = Some r"
    by (simp add: n2 run_Emit)
  from emit_body_trace[OF run_framed this]
  obtain t2 where t2: "trace (world_of r) = trace w3 @ Emitted p ''error'' args # t2"
    by auto
  have "apply_listener (run n1) (BubbleError p s) args v = Some r"
    using w3(1) r by (simp add: apply_listener_def bubble_error_def)
  then have "\<exists>r'. run_listeners (run n1) [BubbleError p s] args v = Some r' \<and> world_of r' = world_of r"
    by (cases r) simp_all
  then obtain r' where r': "run_listeners (run n1) [BubbleError p s] args v = Some r'"
    "world_of r' = world_of r" by blast
  have "Action_emitError n s args w = Some r'"
    using v(1) r'(1) ls
    by (simp add: Action_emitError_def n1 run_Emit emit_body_def run_listeners_append)
  moreover have "trace (world_of r') =
      trace w @ Emitted s ''error'' args # (t0 @ t) @ Emitted p ''error'' args # t2"
    using r'(2) t2 w3(3) v(3) by simp
  moreover have "\<forall>x \<in> set (subActions (actions w p)). x \<noteq> s \<longrightarrow> Emitted x ''cancel'' [] \<in> set t"
    using w3(4) subs by auto
  ultimately show ?thesis using v(4) only by blast
qed

lemma add_all_fields:
  assumes "p \<notin> set cs" "distinct cs"
  shows "subActions (actions (add_all p cs w) a) =
           (if a = p then subActions (actions w p) @ cs else subActions (actions w a))"
    and "listeners (actions (add_all p cs w) a) ev =
           (if a \<in> set cs \<and> ev = ''error'' then listeners (actions w a) ''error'' @ [BubbleError p a]
            else listeners (actions w a) ev)"
    and "scheduled (add_all p cs w) = scheduled w @ cs"
    and "trace (add_all p cs w) = trace w"
  using assms
proof (induction cs arbitrary: w)
  case Nil
  {
    case 1 show ?case by simp
  next
    case 2 show ?case by simp
  next
    case 3 show ?case by simp
  next
    case 4 show ?case by simp
  }
next
  case (Cons c cs)
  {
    case 1
    then have "c \<noteq> p" "p \<notin> set cs" "distinct cs" by auto
    with Cons.IH(1)[of "Action_addAction p c None w"] show ?case
      by (simp add: addAction_fields)
  next
    case 2
    then have "c \<noteq> p" "p \<notin> set cs" "distinct cs" "c \<notin> set cs" by auto
    with Cons.IH(2)[of "Action_addAction p c None w"] show ?case
      by (auto simp: addAction_fields)
  next
    case 3
    then have "c \<noteq> p" "p \<notin> set cs" "distinct cs" by auto
    with Cons.IH(3)[of "Action_addAction p c None w"] show ?case
      by (simp add: addAction_fields)
  next
    case 4
    then have "c \<noteq> p" "p \<notin> set cs" "distinct cs" by auto
    with Cons.IH(4)[of "Action_addAction p c None w"] show ?case
      by (simp add: addAction_fields)
  }
qed

lemma add_all_tree_like:
  "tree_like w rk R \<Longrightarrow> \<forall>c \<in> set cs. rk c < rk p \<Longrightarrow> tree_like (add_all p cs w) rk R"
  by (induction cs arbitrary: w) (simp_all add: addAction_tree_like)

lemma ranked_descendant:
  assumes "(a, d) \<in> (owns w)\<^sup>*" "ranked w rk"
  shows "rk d \<le> rk a"
  using assms
proof (induction rule: rtrancl_induct)
  case base
  then show ?case by simp
next
  case (step y z)
  then have "rk z < rk y" by (auto simp: ranked_def owns_def)
  with step show ?case by simp
qed

text \<open>The failure of an action wired by \<open>transition\<close> with an error target.\<close>

lemma addAction_Some_True: "Action_addAction me a (Some True) w = Action_addAction me a None w"
  by (simp add: Action_addAction_def)

lemma addListener_tree_like:
  assumes "tree_like w rk R" "ev \<noteq> ''cancel''" "\<And>p s. l \<noteq> BubbleError p s"
  shows "tree_like (addListener a ev l w) rk R"
proof -
  have "ranked (addListener a ev l w) rk" using assms(1) by (simp add: tree_like_def ranked_def)
  moreover have "cancel_listeners_ok (addListener a ev l w)"
    using assms(1,2) by (simp add: tree_like_def cancel_listeners_ok_def)
  moreover have "bubble_ranked (addListener a ev l w) rk"
    unfolding bubble_ranked_def
  proof (intro allI impI)
    fix b ev' me sub
    assume "BubbleError me sub \<in> set (listeners (actions (addListener a ev l w) b) ev')"
    with assms(3) have "BubbleError me sub \<in> set (listeners (actions w b) ev')"
      by (auto split: if_splits)
    with assms(1) show "rk b < rk me" unfolding tree_like_def bubble_ranked_def by blast
  qed
  ultimately show ?thesis using assms(1) by (simp add: tree_like_def)
qed

lemma failure_is_routed:
  assumes ls: "listeners (actions w a) ''error'' = L @ [TransitionListener me ''error'' opts]"
    and gu: "\<forall>l \<in> set L. guard_or_user a l" and tr: "truthy (o_error opts)"
  shows "\<exists>r t. Action_emitError (Suc n) a args w = Some r \<and>
           sm_state (actions (world_of r) me) = o_error opts \<and> heard_only t \<and>
           (case sm_handlers (actions w me) (to_string (o_error opts)) of
              Some h \<Rightarrow>
                r = Done (world_of r) \<and>
                trace (world_of r) =
                  trace w @ Emitted a ''error'' args # t @
                    [Handled me (to_string (o_error opts)) h (handed_on opts args)]
            | None \<Rightarrow>
                r = Raised (JStr (''Undefined state: '' @ to_string (o_error opts))) (world_of r) \<and>
                trace (world_of r) = trace w @ Emitted a ''error'' args # t)"
proof -
  let ?w2 = "observe (Emitted a ''error'' args) w"
  have "length (listeners (actions ?w2 a) ''error'') \<noteq> 1 \<or> L = []"
    using ls by (cases L) simp_all
  then have "\<exists>v t0. run_listeners (run n) L args ?w2 = Some (Done v) \<and> frame ?w2 v \<and>
      trace v = trace ?w2 @ t0 \<and> heard_only t0 \<and>
      (\<forall>b. sm_state (actions v b) = sm_state (actions ?w2 b))"
  proof
    assume "length (listeners (actions ?w2 a) ''error'') \<noteq> 1"
    from run_guard_user_heard[OF gu this] show ?thesis by blast
  next
    assume "L = []"
    then show ?thesis by (simp add: heard_only_def)
  qed
  then obtain v t0 where v: "run_listeners (run n) L args ?w2 = Some (Done v)" "frame ?w2 v"
    "trace v = trace ?w2 @ t0" "heard_only t0"
    by blast
  have fv: "frame w v" using v(2) by (rule frame_trans[OF frame_observe])
  have h: "sm_handlers (actions v me) = sm_handlers (actions w me)" using fv by (simp add: frame_def)
  have e: "Action_emitError (Suc n) a args w =
      transition_listener me ''error'' opts args v"
    using v(1) ls
    by (simp add: Action_emitError_def run_Emit emit_body_def run_listeners_append
        apply_listener_def wbind_def split: option.splits wres.splits)
  show ?thesis
  proof (cases "sm_handlers (actions w me) (to_string (o_error opts))")
    case None
    with e tr h v(3,4) show ?thesis
      by (intro exI[of _ "Raised (JStr (''Undefined state: '' @ to_string (o_error opts)))
            (puts (''Undefined state: '' @ to_string (o_error opts)) (set_state me (o_error opts) v))"]
          exI[of _ t0])
         (simp add: transition_listener_def transitionNow_def set_state_def puts_def Let_def)
  next
    case (Some hd)
    with e tr h v(3,4) show ?thesis
      by (intro exI[of _ "Done (observe (Handled me (to_string (o_error opts)) hd (handed_on opts args))
            (set_state me (o_error opts) v))"] exI[of _ t0])
         (simp add: transition_listener_def transitionNow_def set_state_def handed_on_def Let_def)
  qed
qed

section \<open>Actions: claims\<close>

text \<open>
  C2, as amended. Cancelling an action emits \<open>cancel\<close> on every tracked descendant,
  transitively (the call returns when the fuel exceeds the rank of the action). \<open>Action\<close>
  keeps no record of the cancellation; an action built by \<open>make\<close> does: once
  cancelled its callback emits nothing, in this world and in every later one.
\<close>

theorem cancel_reaches_descendants:
  assumes "ranked w rk" and "cancel_listeners_ok w" and "rk a < n"
  shows "\<exists>w' t. Action_cancel n a w = Some (Done w') \<and> trace w' = trace w @ t \<and>
           (\<forall>d. (a, d) \<in> (owns w)\<^sup>* \<longrightarrow>
              Emitted d ''cancel'' [] \<in> set t \<and>
              (MakeCancel d \<in> set (listeners (actions w d) ''cancel'') \<longrightarrow>
                 (\<forall>w'' k cbargs. frame w' w'' \<longrightarrow>
                    make_callback k d cbargs w'' = Some (Done w''))))"
proof -
  from cancel_total[OF assms]
  obtain w' t where w': "run n (Cancel a) w = Some (Done w')" "trace w' = trace w @ t"
    "cancelled_below w a t w'" by blast
  have "make_callback k d cbargs w'' = Some (Done w'')"
    if "(a, d) \<in> (owns w)\<^sup>*" "MakeCancel d \<in> set (listeners (actions w d) ''cancel'')"
      "frame w' w''" for d w'' k cbargs
  proof -
    from w'(3) that(1,2) have "\<not> active w' d" by (simp add: cancelled_below_def)
    with frame_inactive[OF that(3)] have "\<not> active w'' d" by blast
    then show ?thesis by (simp add: make_callback_def)
  qed
  with w' show ?thesis
    by (intro exI[of _ w'] exI[of _ t]) (auto simp: Action_cancel_def cancelled_below_def)
qed

lemma ex_family_actions:
  "subActions (actions ex_family a) = (if a = 0 then [1] else if a = 1 then [2] else [])"
  "listeners (actions ex_family a) ''cancel'' =
     (if a = 1 then [MakeCancel 1] else if a = 2 then [MakeCancel 2] else [])"
  by (auto simp: ex_family_def Action_addAction_def addListener_def Action_start_def make_def
      Action_new_def empty_world_def Let_def)

theorem cancel_reaches_descendants_witness:
  "\<exists>w' t. Action_cancel 3 0 ex_family = Some (Done w') \<and> trace w' = trace ex_family @ t \<and>
           (\<forall>d. (0, d) \<in> (owns ex_family)\<^sup>* \<longrightarrow>
              Emitted d ''cancel'' [] \<in> set t \<and>
              (MakeCancel d \<in> set (listeners (actions ex_family d) ''cancel'') \<longrightarrow>
                 (\<forall>w'' k cbargs. frame w' w'' \<longrightarrow>
                    make_callback k d cbargs w'' = Some (Done w''))))"
proof -
  have r: "ranked ex_family (\<lambda>a. 2 - a)"
    by (auto simp: ranked_def ex_family_actions split: if_splits)
  have c: "cancel_listeners_ok ex_family"
    by (auto simp: cancel_listeners_ok_def ex_family_actions quiet_listener_def split: if_splits)
  have n: "(\<lambda>a. 2 - a) (0::nat) < (3::nat)" by simp
  from cancel_reaches_descendants[OF r c n] show ?thesis .
qed

text \<open>
  The claim as stated fails: \<open>emitSuccess\<close> of \<open>Action\<close> does not look at a
  cancellation, so a cancelled action still emits success to its listeners.
\<close>

theorem cancelled_action_emits_counterexample:
  "(case Action_cancel 1 0 ex_listened of
      Some (Done w1) \<Rightarrow>
        (case Action_emitSuccess 1 0 [JStr ''late''] w1 of
           Some (Done w2) \<Rightarrow>
             trace w2 = [Emitted 0 ''cancel'' [], Emitted 0 ''success'' [JStr ''late''],
                         Heard ''onSuccess'' [JStr ''late'']]
         | _ \<Rightarrow> False)
    | _ \<Rightarrow> False)"
  by code_simp

text \<open>
  C3. \<open>addAction\<close> with bubbling registers the sub-action and starts it. When any of
  the sub-actions registered this way fails, the first as well as the last, every
  other sub-action of the parent emits \<open>cancel\<close>, and after that the error is emitted on
  the parent with the same payload; the failing sub-action itself is not cancelled when
  no other action owns it. The sub-actions come with the listeners of their constructor
  and of the user; the ownership is a tree.
\<close>

theorem addAction_bubbles:
  assumes tl: "tree_like w rk R" and below: "\<forall>c \<in> set cs. rk c < rk p" and dist: "distinct cs"
    and ls: "\<forall>c \<in> set cs. \<forall>l \<in> set (listeners (actions w c) ''error''). guard_or_user c l"
    and s: "s \<in> set cs" and n: "2 * R - rk s < n"
  shows "subActions (actions (add_all p cs w) p) = subActions (actions w p) @ cs \<and>
         scheduled (add_all p cs w) = scheduled w @ cs \<and>
         (\<exists>r t1 t2. Action_emitError n s args (add_all p cs w) = Some r \<and>
            trace (world_of r) =
              trace w @ Emitted s ''error'' args # t1 @ Emitted p ''error'' args # t2 \<and>
            (\<forall>x \<in> set (subActions (actions w p) @ cs). x \<noteq> s \<longrightarrow>
               Emitted x ''cancel'' [] \<in> set t1) \<and>
            ((\<forall>y. s \<notin> set (subActions (actions w y))) \<longrightarrow> Emitted s ''cancel'' [] \<notin> set t1))"
proof -
  let ?w1 = "add_all p cs w"
  have p: "p \<notin> set cs" using below by auto
  note f = add_all_fields[OF p dist]
  have tl1: "tree_like ?w1 rk R" using tl below by (rule add_all_tree_like)
  have l1: "listeners (actions ?w1 s) ''error'' = listeners (actions w s) ''error'' @ [BubbleError p s]"
    using s by (simp add: f)
  have gu: "\<forall>l \<in> set (listeners (actions w s) ''error''). guard_or_user s l" using ls s by simp
  from bubbling_child_fails[OF tl1 l1 gu n, of args]
  obtain r t0 t1 t2 where r: "Action_emitError n s args ?w1 = Some r"
    "trace (world_of r) =
       trace ?w1 @ Emitted s ''error'' args # (t0 @ t1) @ Emitted p ''error'' args # t2"
    "heard_only t0"
    "\<forall>x \<in> set (subActions (actions ?w1 p)). x \<noteq> s \<longrightarrow> Emitted x ''cancel'' [] \<in> set t1"
    "\<forall>d ev xs. Emitted d ev xs \<in> set t1 \<longrightarrow>
       (\<exists>x \<in> set (subActions (actions ?w1 p)). x \<noteq> s \<and> (x, d) \<in> (owns ?w1)\<^sup>*)"
    by blast
  have rk1: "ranked ?w1 rk" using tl1 by (simp add: tree_like_def)
  have no: "Emitted s ''cancel'' [] \<notin> set (t0 @ t1)" if fresh: "\<forall>y. s \<notin> set (subActions (actions w y))"
  proof
    assume "Emitted s ''cancel'' [] \<in> set (t0 @ t1)"
    with r(3) have "Emitted s ''cancel'' [] \<in> set t1" by (auto simp: heard_only_def)
    with r(5) obtain x where x: "x \<in> set (subActions (actions ?w1 p))" "x \<noteq> s"
      "(x, s) \<in> (owns ?w1)\<^sup>*" by blast
    from x(3) x(2) obtain y where y: "(x, y) \<in> (owns ?w1)\<^sup>*" "(y, s) \<in> owns ?w1"
      by (auto elim: rtranclE)
    from y(2) fresh have "y = p" by (auto simp: owns_def f split: if_splits)
    with y(1) rk1 have "rk p \<le> rk x" by (auto intro: ranked_descendant)
    moreover from x(1) rk1 have "rk x < rk p" by (auto simp: ranked_def)
    ultimately show False by simp
  qed
  have "\<forall>x \<in> set (subActions (actions w p) @ cs). x \<noteq> s \<longrightarrow> Emitted x ''cancel'' [] \<in> set (t0 @ t1)"
    using r(4) by (auto simp: f)
  with r(1,2) no have "\<exists>r t1 t2. Action_emitError n s args ?w1 = Some r \<and>
            trace (world_of r) =
              trace w @ Emitted s ''error'' args # t1 @ Emitted p ''error'' args # t2 \<and>
            (\<forall>x \<in> set (subActions (actions w p) @ cs). x \<noteq> s \<longrightarrow>
               Emitted x ''cancel'' [] \<in> set t1) \<and>
            ((\<forall>y. s \<notin> set (subActions (actions w y))) \<longrightarrow> Emitted s ''cancel'' [] \<notin> set t1)"
    by (intro exI[of _ r] exI[of _ "t0 @ t1"] exI[of _ t2]) (simp add: f)
  then show ?thesis by (simp add: f)
qed

lemma ex_unrelated_actions:
  "subActions (actions ex_unrelated a) = []"
  "listeners (actions ex_unrelated a) ev =
     (if ev = ''error'' then
        (if a = 0 then [UnhandledGuard 0, UserListener ''onError'']
         else if a = 1 \<or> a = 2 \<or> a = 3 then [UnhandledGuard a] else [])
      else [])"
  "trace ex_unrelated = []" "scheduled ex_unrelated = []"
  by (auto simp: ex_unrelated_def addListener_def Action_new_def empty_world_def)

theorem addAction_bubbles_witness:
  "subActions (actions (add_all 0 [1, 2, 3] ex_unrelated) 0) = [1, 2, 3] \<and>
   scheduled (add_all 0 [1, 2, 3] ex_unrelated) = [1, 2, 3] \<and>
   (\<exists>r t1 t2. Action_emitError 3 1 [JStr ''boom''] (add_all 0 [1, 2, 3] ex_unrelated) = Some r \<and>
      trace (world_of r) =
        Emitted 1 ''error'' [JStr ''boom''] # t1 @ Emitted 0 ''error'' [JStr ''boom''] # t2 \<and>
      Emitted 2 ''cancel'' [] \<in> set t1 \<and> Emitted 3 ''cancel'' [] \<in> set t1 \<and>
      Emitted 1 ''cancel'' [] \<notin> set t1)"
proof -
  let ?rk = "\<lambda>a. if a = (0::nat) then 1 else (0::nat)"
  have t: "tree_like ex_unrelated ?rk 1"
    by (auto simp: tree_like_def ranked_def bubble_ranked_def cancel_listeners_ok_def
        ex_unrelated_actions split: if_splits)
  have b: "\<forall>c \<in> set [1, 2, 3]. ?rk c < ?rk 0" by simp
  have d: "distinct [1::nat, 2, 3]" by simp
  have l: "\<forall>c \<in> set [1, 2, 3]. \<forall>l \<in> set (listeners (actions ex_unrelated c) ''error'').
      guard_or_user c l"
    by (simp add: ex_unrelated_actions guard_or_user_def)
  have s: "(1::nat) \<in> set [1, 2, 3]" by simp
  have n: "2 * 1 - ?rk 1 < 3" by simp
  from addAction_bubbles[OF t b d l s n, of "[JStr ''boom'']"] show ?thesis
    by (simp add: ex_unrelated_actions)
qed

text \<open>
  C4, as amended. \<open>transition\<close> wires the action as a tracked sub-action and starts
  it. Bubbling is enabled if and only if the caller gives an error target that is
  falsy (and not \<open>undefined\<close>): the failure of the action then cancels the other
  sub-actions of the machine and is emitted on the machine. In every other case, also
  when the caller gives no error target and the default \<open>error\<close> applies, the failure
  does not bubble: the machine takes the error target as its state and the handler of
  that state is called with the payload (and the data of the transition); a state
  without handler throws.
\<close>

theorem transition_bubbling:
  assumes "t_action opts = JAction a"
    and "BubbleError me a \<notin> set (listeners (actions w a) ''error'')"
  shows "\<exists>w'. StateMachine_transition me opts w = Some (Done w') \<and>
           subActions (actions w' me) = subActions (actions w me) @ [a] \<and>
           scheduled w' = scheduled w @ [a] \<and>
           listeners (actions w' a) ''success'' =
             listeners (actions w a) ''success'' @ [TransitionListener me ''success'' (mixin opts)] \<and>
           (BubbleError me a \<in> set (listeners (actions w' a) ''error'') \<longleftrightarrow>
              (\<exists>v. t_error opts = Some v \<and> v \<noteq> JUndefined \<and> \<not> truthy v)) \<and>
           (t_error opts = None \<longrightarrow> o_error (mixin opts) = JStr ''error'') \<and>
           (\<not> (\<exists>v. t_error opts = Some v \<and> v \<noteq> JUndefined \<and> \<not> truthy v) \<and>
            (\<forall>l \<in> set (listeners (actions w a) ''error''). guard_or_user a l) \<longrightarrow>
              (\<exists>r t. Action_emitError (Suc n) a args w' = Some r \<and>
                 sm_state (actions (world_of r) me) = o_error (mixin opts) \<and> heard_only t \<and>
                 (case sm_handlers (actions w me) (to_string (o_error (mixin opts))) of
                    Some h \<Rightarrow>
                      r = Done (world_of r) \<and>
                      trace (world_of r) =
                        trace w @ Emitted a ''error'' args # t @
                          [Handled me (to_string (o_error (mixin opts))) h
                             (handed_on (mixin opts) args)]
                  | None \<Rightarrow>
                      r = Raised (JStr (''Undefined state: '' @ to_string (o_error (mixin opts))))
                            (world_of r) \<and>
                      trace (world_of r) = trace w @ Emitted a ''error'' args # t))) \<and>
           ((\<exists>v. t_error opts = Some v \<and> v \<noteq> JUndefined \<and> \<not> truthy v) \<and>
            (\<forall>l \<in> set (listeners (actions w a) ''error''). guard_or_user a l) \<and>
            tree_like w rk R \<and> rk a < rk me \<and> 2 * R - rk a < k \<longrightarrow>
              (\<exists>r t1 t2. Action_emitError k a args w' = Some r \<and>
                 trace (world_of r) =
                   trace w @ Emitted a ''error'' args # t1 @ Emitted me ''error'' args # t2 \<and>
                 (\<forall>x \<in> set (subActions (actions w me)). x \<noteq> a \<longrightarrow>
                    Emitted x ''cancel'' [] \<in> set t1)))"
proof -
  have a: "o_action (mixin opts) = JAction a" using assms(1) by (simp add: mixin_def)
  note nb = assms(2)
  have d: "t_error opts = None \<longrightarrow> o_error (mixin opts) = JStr ''error''"
    by (simp add: mixin_def)
  let ?L = "listeners (actions w a) ''error''"
  let ?ws = "addListener a ''success'' (TransitionListener me ''success'' (mixin opts)) w"
  show ?thesis
  proof (cases "truthy (o_error (mixin opts))")
    case True
    then have ne: "\<not> (\<exists>v. t_error opts = Some v \<and> v \<noteq> JUndefined \<and> \<not> truthy v)"
      using mixin_error_falsy[of opts] by simp
    let ?w' = "Action_addAction me a (Some False)
        (addListener a ''error'' (TransitionListener me ''error'' (mixin opts)) ?ws)"
    have w': "StateMachine_transition me opts w = Some (Done ?w')"
      using True a by (simp add: StateMachine_transition_def Let_def)
    have l: "listeners (actions ?w' a) ''error'' = ?L @ [TransitionListener me ''error'' (mixin opts)]"
      by simp
    have hs: "sm_handlers (actions ?w' me) = sm_handlers (actions w me)" "trace ?w' = trace w"
      by simp_all
    have routed: "\<exists>r t. Action_emitError (Suc n) a args ?w' = Some r \<and>
                 sm_state (actions (world_of r) me) = o_error (mixin opts) \<and> heard_only t \<and>
                 (case sm_handlers (actions w me) (to_string (o_error (mixin opts))) of
                    Some h \<Rightarrow>
                      r = Done (world_of r) \<and>
                      trace (world_of r) =
                        trace w @ Emitted a ''error'' args # t @
                          [Handled me (to_string (o_error (mixin opts))) h
                             (handed_on (mixin opts) args)]
                  | None \<Rightarrow>
                      r = Raised (JStr (''Undefined state: '' @ to_string (o_error (mixin opts))))
                            (world_of r) \<and>
                      trace (world_of r) = trace w @ Emitted a ''error'' args # t)"
      if gu: "\<forall>l \<in> set ?L. guard_or_user a l"
      by (rule failure_is_routed[OF l gu True, of n args, unfolded hs])
    have "subActions (actions ?w' me) = subActions (actions w me) @ [a]"
      "scheduled ?w' = scheduled w @ [a]"
      "listeners (actions ?w' a) ''success'' =
         listeners (actions w a) ''success'' @ [TransitionListener me ''success'' (mixin opts)]"
      "BubbleError me a \<notin> set (listeners (actions ?w' a) ''error'')"
      using nb by (auto simp: Action_addAction_def addListener_def Action_start_def)
    with routed show ?thesis using w' ne d by (intro exI[of _ ?w']) blast
  next
    case False
    then have e: "\<exists>v. t_error opts = Some v \<and> v \<noteq> JUndefined \<and> \<not> truthy v"
      using mixin_error_falsy[of opts] by simp
    let ?w' = "Action_addAction me a None ?ws"
    have w': "StateMachine_transition me opts w = Some (Done ?w')"
      using False a by (simp add: StateMachine_transition_def Let_def addAction_Some_True)
    have f: "subActions (actions ?w' me) = subActions (actions w me) @ [a]"
      "scheduled ?w' = scheduled w @ [a]"
      "listeners (actions ?w' a) ''success'' =
         listeners (actions w a) ''success'' @ [TransitionListener me ''success'' (mixin opts)]"
      "listeners (actions ?w' a) ''error'' = ?L @ [BubbleError me a]" "trace ?w' = trace w"
      by (simp_all add: Action_addAction_def addListener_def Action_start_def)
    have bub: "\<exists>r t1 t2. Action_emitError k a args ?w' = Some r \<and>
                 trace (world_of r) =
                   trace w @ Emitted a ''error'' args # t1 @ Emitted me ''error'' args # t2 \<and>
                 (\<forall>x \<in> set (subActions (actions w me)). x \<noteq> a \<longrightarrow>
                    Emitted x ''cancel'' [] \<in> set t1)"
      if gu: "\<forall>l \<in> set ?L. guard_or_user a l"
        and t: "tree_like w rk R" "rk a < rk me" "2 * R - rk a < k"
    proof -
      have "tree_like ?ws rk R" using t(1) by (rule addListener_tree_like) simp_all
      then have "tree_like ?w' rk R" using t(2) by (rule addAction_tree_like)
      from bubbling_child_fails[OF this f(4) gu t(3), of args]
      obtain r t0 t1 t2 where r: "Action_emitError k a args ?w' = Some r"
        "trace (world_of r) =
           trace ?w' @ Emitted a ''error'' args # (t0 @ t1) @ Emitted me ''error'' args # t2"
        "\<forall>x \<in> set (subActions (actions ?w' me)). x \<noteq> a \<longrightarrow> Emitted x ''cancel'' [] \<in> set t1"
        by blast
      have "\<forall>x \<in> set (subActions (actions w me)). x \<noteq> a \<longrightarrow> Emitted x ''cancel'' [] \<in> set (t0 @ t1)"
        using r(3) f(1) by auto
      with r(1,2) f(5) show ?thesis
        by (intro exI[of _ r] exI[of _ "t0 @ t1"] exI[of _ t2]) simp
    qed
    from f bub e w' d show ?thesis by (intro exI[of _ ?w']) auto
  qed
qed

lemma ex_machine_world_actions:
  "listeners (actions ex_machine_world a) ev =
     (if ev = ''error'' \<and> (a = 0 \<or> a = 1) then [UnhandledGuard a] else [])"
  "subActions (actions ex_machine_world a) = []"
  "sm_handlers (actions ex_machine_world 0) = [''error'' \<mapsto> ''onError'']"
  "trace ex_machine_world = []" "scheduled ex_machine_world = []"
  by (auto simp: ex_machine_world_def StateMachine_addState_def Action_new_def empty_world_def)

lemma ex_busy_machine_actions:
  "listeners (actions ex_busy_machine a) ev =
     (if ev = ''error'' then
        (if a = 0 \<or> a = 1 then [UnhandledGuard a]
         else if a = 2 then [UnhandledGuard 2, BubbleError 0 2] else [])
      else [])"
  "subActions (actions ex_busy_machine a) = (if a = 0 then [2] else [])"
  "trace ex_busy_machine = []" "scheduled ex_busy_machine = [2]"
  by (auto simp: ex_busy_machine_def ex_machine_world_def StateMachine_addState_def
      Action_addAction_def addListener_def Action_start_def Action_new_def empty_world_def)

theorem transition_bubbling_witness:
  "(\<exists>w'. StateMachine_transition 0 ex_opts ex_machine_world = Some (Done w') \<and>
          subActions (actions w' 0) = [1] \<and> scheduled w' = [1] \<and>
          listeners (actions w' 1) ''success'' = [TransitionListener 0 ''success'' (mixin ex_opts)] \<and>
          BubbleError 0 1 \<notin> set (listeners (actions w' 1) ''error'') \<and>
          (\<exists>r t. Action_emitError 1 1 [JStr ''boom''] w' = Some r \<and>
             sm_state (actions (world_of r) 0) = JStr ''error'' \<and> heard_only t \<and>
             r = Done (world_of r) \<and>
             trace (world_of r) =
               Emitted 1 ''error'' [JStr ''boom''] # t @
                 [Handled 0 ''error'' ''onError'' [JStr ''boom'']])) \<and>
   (\<exists>w'. StateMachine_transition 0 ex_falsy_opts ex_busy_machine = Some (Done w') \<and>
          subActions (actions w' 0) = [2, 1] \<and>
          BubbleError 0 1 \<in> set (listeners (actions w' 1) ''error'') \<and>
          (\<exists>r t1 t2. Action_emitError 3 1 [JStr ''boom''] w' = Some r \<and>
             trace (world_of r) =
               Emitted 1 ''error'' [JStr ''boom''] # t1 @ Emitted 0 ''error'' [JStr ''boom''] # t2 \<and>
             Emitted 2 ''cancel'' [] \<in> set t1))"
proof -
  let ?rk = "\<lambda>a. if a = (0::nat) then 1 else (0::nat)"
  have a: "t_action ex_opts = JAction 1" "t_action ex_falsy_opts = JAction 1"
    by (simp_all add: ex_opts_def ex_falsy_opts_def)
  have g1: "\<forall>l \<in> set (listeners (actions ex_machine_world 1) ''error''). guard_or_user 1 l"
    by (simp add: ex_machine_world_actions guard_or_user_def)
  have g2: "\<forall>l \<in> set (listeners (actions ex_busy_machine 1) ''error''). guard_or_user 1 l"
    by (simp add: ex_busy_machine_actions guard_or_user_def)
  have e1: "t_error ex_opts = None" "o_error (mixin ex_opts) = JStr ''error''"
    "handed_on (mixin ex_opts) [JStr ''boom''] = [JStr ''boom'']"
    by (simp_all add: ex_opts_def mixin_def handed_on_def)
  have e2: "t_error ex_falsy_opts = Some (JBool False)"
    by (simp add: ex_falsy_opts_def)
  have t: "tree_like ex_busy_machine ?rk 1"
    by (auto simp: tree_like_def ranked_def bubble_ranked_def cancel_listeners_ok_def
        ex_busy_machine_actions split: if_splits)
  have b1: "BubbleError 0 1 \<notin> set (listeners (actions ex_machine_world 1) ''error'')"
    "BubbleError 0 1 \<notin> set (listeners (actions ex_busy_machine 1) ''error'')"
    by (simp_all add: ex_machine_world_actions ex_busy_machine_actions)
  from transition_bubbling[OF a(1) b1(1), of 0 "[JStr ''boom'']" ?rk 1 3] g1
  have one: "\<exists>w'. StateMachine_transition 0 ex_opts ex_machine_world = Some (Done w') \<and>
          subActions (actions w' 0) = [1] \<and> scheduled w' = [1] \<and>
          listeners (actions w' 1) ''success'' = [TransitionListener 0 ''success'' (mixin ex_opts)] \<and>
          BubbleError 0 1 \<notin> set (listeners (actions w' 1) ''error'') \<and>
          (\<exists>r t. Action_emitError 1 1 [JStr ''boom''] w' = Some r \<and>
             sm_state (actions (world_of r) 0) = JStr ''error'' \<and> heard_only t \<and>
             r = Done (world_of r) \<and>
             trace (world_of r) =
               Emitted 1 ''error'' [JStr ''boom''] # t @
                 [Handled 0 ''error'' ''onError'' [JStr ''boom'']])"
    by (simp add: e1 ex_machine_world_actions)
  from transition_bubbling[OF a(2) b1(2), of 0 "[JStr ''boom'']" ?rk 1 3] t g2
  have two: "\<exists>w'. StateMachine_transition 0 ex_falsy_opts ex_busy_machine = Some (Done w') \<and>
          subActions (actions w' 0) = [2, 1] \<and>
          BubbleError 0 1 \<in> set (listeners (actions w' 1) ''error'') \<and>
          (\<exists>r t1 t2. Action_emitError 3 1 [JStr ''boom''] w' = Some r \<and>
             trace (world_of r) =
               Emitted 1 ''error'' [JStr ''boom''] # t1 @ Emitted 0 ''error'' [JStr ''boom''] # t2 \<and>
             Emitted 2 ''cancel'' [] \<in> set t1)"
    by (simp add: e2 ex_busy_machine_actions) blast
  from one two show ?thesis by blast
qed

text \<open>
  The claim as stated fails: with no error target given, the failure of the child
  does not bubble; the machine's \<open>error\<close> handler is called and nothing is emitted on
  the machine.
\<close>

theorem transition_bubbling_counterexample:
  "t_error ex_opts = None \<and>
   (case StateMachine_transition 0 ex_opts ex_machine_world of
      Some (Done w') \<Rightarrow>
        BubbleError 0 1 \<notin> set (listeners (actions w' 1) ''error'') \<and>
        (case Action_emitError 1 1 [JStr ''boom''] w' of
           Some (Done w'') \<Rightarrow>
             trace w'' = [Emitted 1 ''error'' [JStr ''boom''],
                          Handled 0 ''error'' ''onError'' [JStr ''boom'']]
         | _ \<Rightarrow> False)
    | _ \<Rightarrow> False)"
  by code_simp

text \<open>
  C5. A parallel queue of \<open>K\<close> specs, started and then sent completion reports in any
  order: the handler of the final state is called once when \<open>K = 0\<close> (at start) or
  when at least \<open>K\<close> reports counted, and not at all before; a success always
  counts, an error counts when its spec declares an error target.
\<close>

theorem parallel_queue_joins_once:
  assumes "queue_ready w q"
    and "\<forall>sg \<in> set sgs. signal_index sg < length (q_transitions (queues w q))"
  shows "\<exists>w1 w2 t0 t.
           TransitionQueue_start q w = Some (Done w1) \<and>
           deliver_all (Suc n) (q_transitions (queues w q)) sgs w1 = Some (Done w2) \<and>
           trace w1 = trace w @ t0 \<and> trace w2 = trace w @ t \<and>
           joins (q_stateMachine (queues w q)) (to_string (q_finalState (queues w q))) t0 =
             (if length (q_transitions (queues w q)) = 0 then 1 else 0) \<and>
           joins (q_stateMachine (queues w q)) (to_string (q_finalState (queues w q))) t =
             (if length (q_transitions (queues w q)) = 0 \<or>
                 length (q_transitions (queues w q)) \<le>
                   length (filter (counted (q_transitions (queues w q))) sgs)
              then 1 else 0)"
proof -
  let ?me = "q_stateMachine (queues w q)"
  let ?ts = "q_transitions (queues w q)"
  let ?fin = "to_string (q_finalState (queues w q))"
  let ?K = "length ?ts"
  from start_wires[OF assms(1)]
  obtain w1 t0 where w1: "TransitionQueue_start q w = Some (Done w1)"
    "wired_queue w q (n_counters w) w1" "counters w1 (n_counters w) = 0"
    "trace w1 = trace w @ t0" "joins ?me ?fin t0 = (if ?K = 0 then 1 else 0)"
    by blast
  from deliver_all_moves[OF assms(1) w1(2) assms(2), of n]
  obtain w2 where w2: "deliver_all (Suc n) ?ts sgs w1 = Some (Done w2)"
    "moved ?me ?fin (n_counters w) w1 w2 (length (filter (counted ?ts) sgs))
       (if counters w1 (n_counters w) < ?K \<and>
           ?K \<le> counters w1 (n_counters w) + length (filter (counted ?ts) sgs) then 1 else 0)"
    by blast
  then obtain t1 where t1: "trace w2 = trace w1 @ t1"
    "joins ?me ?fin t1 = (if 0 < ?K \<and> ?K \<le> length (filter (counted ?ts) sgs) then 1 else 0)"
    using w1(3) by (auto simp: moved_def)
  have "trace w2 = trace w @ (t0 @ t1)" using w1(4) t1(1) by simp
  moreover have "joins ?me ?fin (t0 @ t1) =
      (if ?K = 0 \<or> ?K \<le> length (filter (counted ?ts) sgs) then 1 else 0)"
    using w1(5) t1(2) by auto
  ultimately show ?thesis using w1(1,4,5) w2(1) by blast
qed

lemma ex_queue_world_fields:
  "queues ex_queue_world q =
     \<lparr>q_stateMachine = 0, q_finalState = JStr ''done'', q_transitions = ex_specs,
      q_started = False\<rparr>"
  "sm_handlers (actions ex_queue_world 0) =
     [''success'' \<mapsto> ''onSuccess'', ''error'' \<mapsto> ''onError'', ''loaded'' \<mapsto> ''onLoaded'',
      ''retry'' \<mapsto> ''onRetry'', ''done'' \<mapsto> ''onDone'']"
  "listeners (actions ex_queue_world a) ev =
     (if ev = ''error'' \<and> (a = 0 \<or> a = 1 \<or> a = 2) then [UnhandledGuard a] else [])"
  by (auto simp: ex_queue_world_def StateMachine_addState_def Action_new_def empty_world_def)

theorem parallel_queue_joins_once_witness:
  "\<exists>w1 w2 t0 t.
     TransitionQueue_start 0 ex_queue_world = Some (Done w1) \<and>
     deliver_all 1 ex_specs [Fails 1 [JStr ''x''], Succeeds 0 []] w1 = Some (Done w2) \<and>
     trace w1 = trace ex_queue_world @ t0 \<and> trace w2 = trace ex_queue_world @ t \<and>
     joins 0 ''done'' t0 = 0 \<and> joins 0 ''done'' t = 1"
proof -
  have r: "queue_ready ex_queue_world 0"
    by (simp add: queue_ready_def ex_queue_world_fields ex_specs_def spec_action_def routed_def
        mixin_def user_listener_def guard_or_user_def Let_def)
  have i: "\<forall>sg \<in> set [Fails 1 [JStr ''x''], Succeeds 0 []].
      signal_index sg < length (q_transitions (queues ex_queue_world 0))"
    by (simp add: signal_index_def ex_queue_world_fields ex_specs_def)
  have c: "length (filter (counted ex_specs) [Fails 1 [JStr ''x''], Succeeds 0 []]) = 2"
    by (simp add: counted_def ex_specs_def declared_def)
  from parallel_queue_joins_once[OF r i, of 0] c show ?thesis
    by (simp add: ex_queue_world_fields) (simp add: ex_specs_def)
qed

text \<open>
  C8. An action whose only listener of \<open>error\<close> is the one of its constructor: an
  error prints the stack when the payload has one, prints the message and throws it.
\<close>

theorem unhandled_error_is_fatal:
  assumes "listeners (actions w a) ''error'' = [UnhandledGuard a]"
  shows "Action_emitError (Suc n) a args w =
     Some (Raised (JStr (''Unhandled error in action: '' @ to_string (arg0 args)))
       (w\<lparr>trace := trace w @ [Emitted a ''error'' args],
          printed := printed w @
            (case stack_of (arg0 args) of None \<Rightarrow> [] | Some s \<Rightarrow> [s]) @
            [''Unhandled error in action: '' @ to_string (arg0 args)]\<rparr>))"
  using assms
  by (simp add: Action_emitError_def run_Emit emit_body_def apply_listener_def unhandled_guard_def
      observe_def puts_def Let_def split: option.splits)

theorem unhandled_error_is_fatal_witness:
  "listeners (actions ex_child_world 1) ''error'' = [UnhandledGuard 1] \<and>
   Action_emitError 1 1 [JError ''boom'' ''Error: boom at f''] ex_child_world =
     Some (Raised (JStr ''Unhandled error in action: Error: boom'')
       (ex_child_world\<lparr>trace := [Emitted 1 ''error'' [JError ''boom'' ''Error: boom at f'']],
          printed := [''Error: boom at f'', ''Unhandled error in action: Error: boom'']\<rparr>))"
proof -
  have l: "listeners (actions ex_child_world 1) ''error'' = [UnhandledGuard 1]"
    by (simp add: ex_child_world_def Action_new_def)
  have t: "trace ex_child_world = []" "printed ex_child_world = []"
    by (simp_all add: ex_child_world_def Action_new_def empty_world_def)
  from unhandled_error_is_fatal[OF l, of 0 "[JError ''boom'' ''Error: boom at f'']"] t l
  show ?thesis by (simp add: arg0_def)
qed

text \<open>
  C9, as amended. \<open>StateMachine.addState\<close> rejects a second registration of a name:
  it prints a warning and leaves the first handler. \<open>addState\<close> of the sequencer makes
  no such check: the second registration replaces the handler, and nothing is logged.
\<close>

theorem addState_twice:
  "(sm_handlers (actions w me) st = Some h \<longrightarrow>
      StateMachine_addState me st h' w =
        puts (''Warning: a handler for '' @ st @ '' has already been defined.'') w \<and>
      sm_handlers (actions (StateMachine_addState me st h' w) me) st = Some h) \<and>
   handlers (nm_addState name g (nm_addState name f m)) name = Some g \<and>
   logged (nm_addState name g (nm_addState name f m)) = logged m"
  by (simp add: StateMachine_addState_def nm_addState_def puts_def)

theorem addState_twice_witness:
  "sm_handlers (actions ex_state_machine 0) ''load'' = Some ''first'' \<and>
   StateMachine_addState 0 ''load'' (Some ''second'') ex_state_machine =
     puts ''Warning: a handler for load has already been defined.'' ex_state_machine \<and>
   sm_handlers (actions (StateMachine_addState 0 ''load'' (Some ''second'') ex_state_machine) 0)
     ''load'' = Some ''first''"
proof -
  have h: "sm_handlers (actions ex_state_machine 0) ''load'' = Some ''first''"
    by (simp add: ex_state_machine_def StateMachine_addState_def Action_new_def)
  note t = addState_twice[of ex_state_machine 0 "''load''" "''first''" "Some ''second''"
      "''load''" Undefined Undefined "NobleMachine Undefined"]
  from t h have c1: "StateMachine_addState 0 ''load'' (Some ''second'') ex_state_machine =
      puts (''Warning: a handler for '' @ ''load'' @ '' has already been defined.'') ex_state_machine"
    by blast
  from t h have c2: "sm_handlers (actions (StateMachine_addState 0 ''load'' (Some ''second'')
      ex_state_machine) 0) ''load'' = Some ''first''"
    by blast
  from c1 have c1': "StateMachine_addState 0 ''load'' (Some ''second'') ex_state_machine =
      puts ''Warning: a handler for load has already been defined.'' ex_state_machine"
    by simp
  show ?thesis by (intro conjI h c1' c2)
qed

text \<open>
  The claim as stated fails for the sequencer: the handler registered second is the
  one the machine keeps.
\<close>

theorem addState_twice_counterexample:
  "handlers (nm_addState ''load'' (Function (ex_quiet ''first'')) (NobleMachine Undefined)) ''load''
     = Some (Function (ex_quiet ''first'')) \<and>
   handlers (nm_addState ''load'' (Function (ex_quiet ''second''))
      (nm_addState ''load'' (Function (ex_quiet ''first'')) (NobleMachine Undefined))) ''load''
     = Some (Function (ex_quiet ''second'')) \<and>
   fname (ex_quiet ''second'') \<noteq> fname (ex_quiet ''first'') \<and>
   logged (nm_addState ''load'' (Function (ex_quiet ''second''))
      (nm_addState ''load'' (Function (ex_quiet ''first'')) (NobleMachine Undefined))) = []"
  by (simp add: nm_addState_def NobleMachine_def ex_quiet_def)

end
